theory Spec2Isabelle
  imports Complex_Main
begin

section \<open>Python numerics\<close>

text \<open>
  The source computes with Python \<open>int\<close> (unbounded, modelled as \<open>int\<close>) and Python
  \<open>float\<close> (IEEE binary64). A float is modelled as the real number it denotes, and
  every floating-point operation of \<open>smooth_move\<close> returns \<open>fl\<close> of its exact result:
  the double nearest to it, a tie going to the even significand, with the subnormal
  range below \<open>2 powi (- 1022)\<close>. The exponent range is unbounded above in \<open>fl\<close>:
  the one place where the source leaves the finite range on integer arguments, the
  conversion of an \<open>int\<close> to a float, is modelled with its \<open>OverflowError\<close>;
  infinities and NaN, which need a duration beyond \<open>10^306\<close> or a non-finite
  argument, are outside this model. The timer \<open>sleep_interruptible\<close> is modelled
  with exact real arithmetic on its clock values.
\<close>

definition py_int :: "real \<Rightarrow> int" where
  \<comment> \<open>\<open>int(r)\<close> on a float: truncation toward zero\<close>
  "py_int r = (if 0 \<le> r then \<lfloor>r\<rfloor> else \<lceil>r\<rceil>)"

definition py_round :: "real \<Rightarrow> int" where
  \<comment> \<open>\<open>round(r)\<close> on a float: nearest integer, a tie goes to the even one\<close>
  "py_round r =
     (let f = \<lfloor>r\<rfloor>; d = r - of_int f
      in if d < 1 / 2 then f else if 1 / 2 < d then f + 1
         else if even f then f else f + 1)"

definition expo :: "real \<Rightarrow> int" where
  \<comment> \<open>the binary exponent of a double near \<open>r\<close>, not below that of the subnormals\<close>
  "expo r = max \<lfloor>log 2 \<bar>r\<bar>\<rfloor> (- 1022)"

definition ulp :: "real \<Rightarrow> real" where
  \<comment> \<open>the spacing of the doubles around \<open>r\<close>: 53 significant bits\<close>
  "ulp r = 2 powi (expo r - 52)"

definition fl :: "real \<Rightarrow> real" where
  \<comment> \<open>rounding to the nearest double, ties to even\<close>
  "fl r = (if r = 0 then 0 else real_of_int (py_round (r / ulp r)) * ulp r)"

definition is_double :: "real \<Rightarrow> bool" where
  "is_double r = (fl r = r)"

definition even_real :: "real \<Rightarrow> bool" where
  \<comment> \<open>the real number is an even integer\<close>
  "even_real r = (\<exists>k. r = real_of_int (2 * k))"

definition math_pi :: real where
  \<comment> \<open>\<open>math.pi\<close>, the double \<open>0x1.921fb54442d18p+1\<close>\<close>
  "math_pi = 884279719003555 / 2 ^ 48"

datatype error = ValueError | OverflowError

definition float_of_int :: "int \<Rightarrow> error + real" where
  \<comment> \<open>the conversion of an \<open>int\<close> to a float: correctly rounded, OverflowError when the
      rounded value would pass the largest double\<close>
  "float_of_int n =
     (if 2 ^ 1024 - 2 ^ 970 \<le> \<bar>n\<bar> then Inl OverflowError else Inr (fl (real_of_int n)))"

definition math_sqrt :: "int \<Rightarrow> error + real" where
  \<comment> \<open>\<open>math.sqrt(n)\<close> on an \<open>int\<close>: conversion, then the correctly rounded square root\<close>
  "math_sqrt n =
     (case float_of_int n of
        Inl err \<Rightarrow> Inl err
      | Inr f \<Rightarrow> if f < 0 then Inl ValueError else Inr (fl (sqrt f)))"

definition time_sleep :: "real \<Rightarrow> error option" where
  \<comment> \<open>\<open>time.sleep(d)\<close> raises ValueError on a negative length; \<open>None\<close> is a normal return\<close>
  "time_sleep d = (if d < 0 then Some ValueError else None)"

section \<open>Mouse motion: \<open>smooth_move\<close>\<close>

datatype event =
    Delta int int  \<comment> \<open>a call \<open>send_input_delta(dx, dy)\<close>\<close>
  | Move int int   \<comment> \<open>a call \<open>send_input_move(x, y)\<close>\<close>

text \<open>
  What \<open>smooth_move\<close> reads from outside: the cursor position returned by
  \<open>GetCursorPos\<close> (two 32-bit \<open>LONG\<close> fields), the value drawn by
  \<open>random.uniform(-0.15, 0.15)\<close>, the values drawn by the successive calls of
  \<open>random.randint(-1, 1)\<close>, and the double that \<open>math.cos\<close> of the C library returns
  on a double.
\<close>

record env =
  cursor :: "int \<times> int"
  uniform_val :: real
  randint_val :: "nat \<Rightarrow> int"
  cos_val :: "real \<Rightarrow> real"

definition eased :: "env \<Rightarrow> int \<Rightarrow> int \<Rightarrow> real" where
  \<comment> \<open>\<open>t = i / steps\<close>, then \<open>eased = (1 - math.cos(t * math.pi)) / 2\<close>\<close>
  "eased en i steps =
     (let t = fl (real_of_int i / real_of_int steps)
      in fl (fl (1 - cos_val en (fl (t * math_pi))) / 2))"

text \<open>Local variables of the relative-mode loop.\<close>

record rel_state =
  prev_bx :: real
  prev_by :: real
  acc_x :: real
  acc_y :: real

definition rel_init :: rel_state where
  "rel_init = \<lparr>prev_bx = 0, prev_by = 0, acc_x = 0, acc_y = 0\<rparr>"

definition rel_curve :: "real \<Rightarrow> real \<Rightarrow> real \<Rightarrow> real" where
  \<comment> \<open>\<open>2 * inv * eased * mid + eased * eased * x\<close> with \<open>inv = 1 - eased\<close>, evaluated
      from left to right; \<open>x\<close> is the offset already converted to a float\<close>
  "rel_curve mid x e =
     (let inv = fl (1 - e)
      in fl (fl (fl (fl (2 * inv) * e) * mid) + fl (fl (e * e) * x)))"

definition rel_sample ::
  "env \<Rightarrow> int \<Rightarrow> int \<Rightarrow> real \<Rightarrow> real \<Rightarrow> int \<Rightarrow> int \<Rightarrow> rel_state
   \<Rightarrow> event list \<times> rel_state" where
  \<comment> \<open>one pass of the loop body up to, not including, the sleep\<close>
  "rel_sample en x y mid_bx mid_by steps i s =
     (let e = eased en i steps;
          bx = rel_curve mid_bx (fl (real_of_int x)) e;
          by = rel_curve mid_by (fl (real_of_int y)) e;
          ax = fl (acc_x s + fl (bx - prev_bx s));
          ay = fl (acc_y s + fl (by - prev_by s));
          send_dx = py_int ax;
          send_dy = py_int ay
      in if send_dx \<noteq> 0 \<or> send_dy \<noteq> 0
         then ([Delta send_dx send_dy],
               \<lparr>prev_bx = bx, prev_by = by,
                acc_x = fl (ax - fl (real_of_int send_dx)),
                acc_y = fl (ay - fl (real_of_int send_dy))\<rparr>)
         else ([], \<lparr>prev_bx = bx, prev_by = by, acc_x = ax, acc_y = ay\<rparr>))"

text \<open>
  The loop \<open>for i in range(1, steps + 1)\<close> over the list of its indices. The result
  is the trace of the samples run (for each, the events it injected and the local
  variables after its injection step), the local variables at the end, and the
  exception that stopped the loop, if any.
\<close>

fun rel_loop ::
  "env \<Rightarrow> int \<Rightarrow> int \<Rightarrow> real \<Rightarrow> real \<Rightarrow> real \<Rightarrow> int \<Rightarrow> int list \<Rightarrow> rel_state
   \<Rightarrow> (event list \<times> rel_state) list \<times> rel_state \<times> error option" where
  "rel_loop en x y mid_bx mid_by duration steps [] s = ([], s, None)"
| "rel_loop en x y mid_bx mid_by duration steps (i # is) s =
     (let (evs, s') = rel_sample en x y mid_bx mid_by steps i s
      in case time_sleep (fl (duration / real_of_int steps)) of
           Some err \<Rightarrow> ([(evs, s')], s', Some err)
         | None \<Rightarrow>
             (let (tr, s'', r) = rel_loop en x y mid_bx mid_by duration steps is s'
              in ((evs, s') # tr, s'', r)))"

definition abs_sample ::
  "env \<Rightarrow> int \<Rightarrow> int \<Rightarrow> int \<Rightarrow> int \<Rightarrow> real \<Rightarrow> real \<Rightarrow> int \<Rightarrow> int \<Rightarrow> event" where
  "abs_sample en start_x start_y target_x target_y mid_bx mid_by steps i =
     (let e = eased en i steps;
          inv = fl (1 - e);
          bx = fl (fl (fl (fl (inv * inv) * fl (real_of_int start_x))
                       + fl (fl (fl (2 * inv) * e) * mid_bx))
                   + fl (fl (e * e) * fl (real_of_int target_x)));
          by = fl (fl (fl (fl (inv * inv) * fl (real_of_int start_y))
                       + fl (fl (fl (2 * inv) * e) * mid_by))
                   + fl (fl (e * e) * fl (real_of_int target_y)));
          curr_x = py_int bx + (if i < steps then randint_val en (nat (2 * (i - 1))) else 0);
          curr_y = py_int by + (if i < steps then randint_val en (nat (2 * (i - 1) + 1)) else 0)
      in Move curr_x curr_y)"

fun abs_loop ::
  "env \<Rightarrow> int \<Rightarrow> int \<Rightarrow> int \<Rightarrow> int \<Rightarrow> real \<Rightarrow> real \<Rightarrow> real \<Rightarrow> int \<Rightarrow> int list
   \<Rightarrow> event list \<times> error option" where
  "abs_loop en start_x start_y target_x target_y mid_bx mid_by duration steps [] = ([], None)"
| "abs_loop en start_x start_y target_x target_y mid_bx mid_by duration steps (i # is) =
     (let ev = abs_sample en start_x start_y target_x target_y mid_bx mid_by steps i
      in case time_sleep (fl (duration / real_of_int steps)) of
           Some err \<Rightarrow> ([ev], Some err)
         | None \<Rightarrow>
             (let (evs, r) =
                    abs_loop en start_x start_y target_x target_y mid_bx mid_by duration steps is
              in (ev # evs, r)))"

definition step_count :: "real \<Rightarrow> int" where
  \<comment> \<open>\<open>steps = max(15, int(duration * 120))\<close>\<close>
  "step_count duration = max 15 (py_int (fl (duration * 120)))"

definition rel_flush :: "rel_state \<Rightarrow> event list" where
  \<comment> \<open>the code after the relative loop\<close>
  "rel_flush s =
     (let send_dx = py_round (acc_x s); send_dy = py_round (acc_y s)
      in if send_dx \<noteq> 0 \<or> send_dy \<noteq> 0 then [Delta send_dx send_dy] else [])"

definition rel_trace ::
  "env \<Rightarrow> int \<Rightarrow> int \<Rightarrow> real
   \<Rightarrow> (event list \<times> rel_state) list \<times> rel_state \<times> error option" where
  \<comment> \<open>the relative loop as \<open>smooth_move\<close> runs it for the offset \<open>(x, y)\<close>, with
      \<open>mid_bx = x / 2\<close> and \<open>mid_by = y / 2\<close>\<close>
  "rel_trace en x y duration =
     rel_loop en x y (fl (real_of_int x / 2)) (fl (real_of_int y / 2)) duration
       (step_count duration) [1..step_count duration] rel_init"

text \<open>
  \<open>smooth_move(x, y, duration, relative)\<close>: the events injected, in order, and the
  exception raised, if any (\<open>None\<close> for a normal return). Once \<open>math.sqrt\<close> has
  returned, every \<open>int\<close> that the code converts to a float is in the range of the
  doubles (the cursor coordinates are 32-bit), so these conversions are \<open>fl\<close>.
\<close>

definition smooth_move :: "env \<Rightarrow> int \<Rightarrow> int \<Rightarrow> real \<Rightarrow> bool \<Rightarrow> event list \<times> error option" where
  "smooth_move en x y duration relative =
     (let (start_x, start_y) = cursor en;
          target_x = (if relative then start_x + x else x);
          target_y = (if relative then start_y + y else y);
          dx = target_x - start_x;
          dy = target_y - start_y
      in case math_sqrt (dx * dx + dy * dy) of
           Inl err \<Rightarrow> ([], Some err)
         | Inr r \<Rightarrow>
             (let dist = r
              in if dist < 2 then
                   (if relative then ([Delta dx dy], None)
                    else ([Move target_x target_y], None))
                 else
                   (let deviation = (if relative then 0 else fl (uniform_val en * dist));
                        mid_bx = (if relative then fl (real_of_int x / 2)
                                  else fl (fl (real_of_int (start_x + target_x) / 2)
                                           + fl (fl (fl (real_of_int (- dy)) / dist) * deviation)));
                        mid_by = (if relative then fl (real_of_int y / 2)
                                  else fl (fl (real_of_int (start_y + target_y) / 2)
                                           + fl (fl (fl (real_of_int dx) / dist) * deviation)));
                        steps = step_count duration
                    in if relative then
                         (case rel_trace en x y duration of
                            (tr, s, Some err) \<Rightarrow> (concat (map fst tr), Some err)
                          | (tr, s, None) \<Rightarrow> (concat (map fst tr) @ rel_flush s, None))
                       else
                         (case abs_loop en start_x start_y target_x target_y mid_bx mid_by
                                 duration steps [1..steps] of
                            (evs, Some err) \<Rightarrow> (evs, Some err)
                          | (evs, None) \<Rightarrow> (evs @ [Move target_x target_y], None)))))"

fun delta_sum :: "event list \<Rightarrow> int \<times> int" where
  \<comment> \<open>componentwise sum of the relative deltas of a list of events\<close>
  "delta_sum [] = (0, 0)"
| "delta_sum (Delta dx dy # evs) = (let (sx, sy) = delta_sum evs in (dx + sx, dy + sy))"
| "delta_sum (Move x y # evs) = delta_sum evs"

fun is_delta :: "event \<Rightarrow> bool" where
  "is_delta (Delta dx dy) = True"
| "is_delta (Move x y) = False"

text \<open>
  Two ways to read a trace of the relative loop started from the local variables \<open>s\<close>:
  the local variables when \<open>k\<close> samples have run, and the sum of the deltas that
  these \<open>k\<close> samples have injected.
\<close>

definition vars_at :: "(event list \<times> rel_state) list \<Rightarrow> rel_state \<Rightarrow> nat \<Rightarrow> rel_state" where
  "vars_at tr s k = (if k = 0 then s else snd (tr ! (k - 1)))"

definition injected :: "(event list \<times> rel_state) list \<Rightarrow> nat \<Rightarrow> int \<times> int" where
  "injected tr k = delta_sum (concat (map fst (take k tr)))"

text \<open>
  What the specification calls the ideal continuous curve, on one axis of the relative
  mode: the raised-cosine easing of the parameter \<open>t\<close> and the quadratic Bezier curve
  from the origin to the offset \<open>x\<close> with the control point \<open>x / 2\<close>, over the real
  numbers with the real cosine and the real \<open>pi\<close>.
\<close>

definition ideal_eased :: "real \<Rightarrow> real" where
  "ideal_eased t = (1 - cos (t * pi)) / 2"

definition ideal_curve :: "real \<Rightarrow> real \<Rightarrow> real" where
  "ideal_curve x t =
     (let e = ideal_eased t in 2 * (1 - e) * e * (x / 2) + e * e * x)"

text \<open>
  What the theorems ask of \<open>math.cos\<close>: it returns doubles between -1 and 1, and -1
  at \<open>math.pi\<close>.
\<close>

definition libm_ok :: "env \<Rightarrow> bool" where
  "libm_ok en =
     ((\<forall>t. is_double (cos_val en t) \<and> - 1 \<le> cos_val en t \<and> cos_val en t \<le> 1)
      \<and> cos_val en math_pi = - 1)"

section \<open>Interruptible sleep: \<open>sleep_interruptible\<close>\<close>

text \<open>
  What \<open>sleep_interruptible\<close> reads from outside: \<open>clock k\<close> is the value returned by
  the call number \<open>k\<close> (from 0) of \<open>time.perf_counter()\<close>, and \<open>status c\<close> the truth
  value returned by the call number \<open>c\<close> of \<open>get_active_status()\<close>. Time passing during
  \<open>time.sleep\<close> shows in the later clock values only.
\<close>

record timer_env =
  clock :: "nat \<Rightarrow> real"
  status :: "nat \<Rightarrow> bool"

text \<open>
  What a call has done when it returns: its return value, the number of clock reads
  and of status checks made, and the arguments of its \<open>time.sleep\<close> calls in order.
\<close>

record outcome =
  result :: bool
  reads :: nat
  checks :: nat
  sleeps :: "real list"

text \<open>
  The spin-wait \<open>while time.perf_counter() < end: pass\<close>, from clock read number \<open>k\<close>;
  it returns the number of clock reads made so far. Both loops may run forever: not
  returning is the value \<open>None\<close>. The source's \<open>end\<close> is \<open>end_t\<close> here.
\<close>

partial_function (option) spin_wait :: "(nat \<Rightarrow> real) \<Rightarrow> real \<Rightarrow> nat \<Rightarrow> nat option" where
  "spin_wait clk end_t k = (if clk k < end_t then spin_wait clk end_t (k + 1) else Some (k + 1))"

partial_function (option) wait_loop ::
  "timer_env \<Rightarrow> real \<Rightarrow> nat \<Rightarrow> nat \<Rightarrow> real list \<Rightarrow> outcome option" where
  "wait_loop en end_t k c sl =
     (if \<not> status en c
      then Some \<lparr>result = False, reads = k, checks = c + 1, sleeps = sl\<rparr>
      else if end_t - clock en k \<le> 0
      then Some \<lparr>result = True, reads = k + 1, checks = c + 1, sleeps = sl\<rparr>
      else if end_t - clock en k \<le> 1 / 1000
      then Option.bind (spin_wait (clock en) end_t (k + 1))
             (\<lambda>k'. Some \<lparr>result = True, reads = k', checks = c + 1, sleeps = sl\<rparr>)
      else wait_loop en end_t (k + 1) (c + 1)
             (sl @ [min (1 / 20) (end_t - clock en k - 1 / 1000)]))"

definition nondecreasing :: "(nat \<Rightarrow> real) \<Rightarrow> bool" where
  \<comment> \<open>a monotonic clock: no read returns less than an earlier read\<close>
  "nondecreasing clk = (\<forall>i j. i \<le> j \<longrightarrow> clk i \<le> clk j)"

definition sleep_interruptible :: "timer_env \<Rightarrow> real \<Rightarrow> outcome option" where
  "sleep_interruptible en duration = wait_loop en (clock en 0 + duration) 1 0 []"

text \<open>
  Two ways to speak of a run: the first \<open>n\<close> passes of the loop all go to the sleep
  (the predicate is True and more than a millisecond remains), and the arguments of
  the sleeps of those passes.
\<close>

definition slept_passes :: "timer_env \<Rightarrow> real \<Rightarrow> nat \<Rightarrow> bool" where
  "slept_passes en duration n =
     (\<forall>j<n. status en j \<and> 1 / 1000 < clock en 0 + duration - clock en (Suc j))"

definition pass_sleeps :: "timer_env \<Rightarrow> real \<Rightarrow> nat \<Rightarrow> real list" where
  "pass_sleeps en duration n =
     map (\<lambda>j. min (1 / 20) (clock en 0 + duration - clock en (Suc j) - 1 / 1000)) [0..<n]"

section \<open>Keyboard and mouse buttons: the held-input state\<close>

unbundle bit_operations_syntax

text \<open>
  A key is given as an \<open>int\<close> (a virtual-key code) or as a \<open>str\<close> (a name). Names are
  taken over the ASCII characters, on which \<open>str.lower\<close> and \<open>str.upper\<close> change the 26
  letters and nothing else.
\<close>

datatype key = KeyCode int | KeyName string

text \<open>
  What the keyboard functions take from outside the repository: the table \<open>KEY_MAP\<close>
  (its entries are built from the constants of \<open>win32con\<close>), the scan code that
  \<open>MapVirtualKeyW\<close> returns in \<open>_get_scan_code\<close>, and the tuple of \<open>win32con\<close> key codes
  listed in \<open>_is_extended_key\<close>.
\<close>

record key_env =
  key_map :: "string \<rightharpoonup> int"
  scan_code :: "int \<Rightarrow> int"
  extended_keys :: "int list"

definition lower_char :: "char \<Rightarrow> char" where
  \<comment> \<open>\<open>str.lower\<close> on one character of the ASCII range\<close>
  "lower_char c =
     (if 65 \<le> (of_char c :: nat) \<and> (of_char c :: nat) \<le> 90
      then char_of ((of_char c :: nat) + 32) else c)"

definition upper_char :: "char \<Rightarrow> char" where
  \<comment> \<open>\<open>str.upper\<close> on one character of the ASCII range\<close>
  "upper_char c =
     (if 97 \<le> (of_char c :: nat) \<and> (of_char c :: nat) \<le> 122
      then char_of ((of_char c :: nat) - 32) else c)"

definition get_key_code :: "(string \<rightharpoonup> int) \<Rightarrow> key \<Rightarrow> error + int" where
  "get_key_code km k =
     (case k of
        KeyCode n \<Rightarrow> Inr n
      | KeyName s \<Rightarrow>
          (case km (map lower_char s) of
             Some v \<Rightarrow> Inr v
           | None \<Rightarrow>
               (if length s = 1 then Inr (of_char (upper_char (hd s)))
                else Inl ValueError)))"

definition is_extended_key :: "key_env \<Rightarrow> int \<Rightarrow> bool" where
  "is_extended_key ke vk_code = (vk_code \<in> set (extended_keys ke))"

datatype input_event =
    KeyEvent int int int  \<comment> \<open>a call \<open>_send_key(vk_code, scan_code, flags)\<close>\<close>
  | MouseEvent int        \<comment> \<open>a call \<open>mouse_event(flags, 0, 0, 0, 0)\<close>\<close>

text \<open>
  The module's globals. \<open>_held_keys\<close> is a Python set: here a list, a key code is added
  only when absent, and \<open>release_all\<close> walks it in the list's order (Python fixes no
  order).
\<close>

record input_state =
  held_keys :: "int list"
  left_click_held :: bool
  right_click_held :: bool

definition initial_state :: input_state where
  \<comment> \<open>the globals as the module sets them on import\<close>
  "initial_state = \<lparr>held_keys = [], left_click_held = False, right_click_held = False\<rparr>"

text \<open>
  Each function returns the events it injected and the new globals, or the exception
  raised by \<open>_get_key_code\<close>, which happens before any event or update.
\<close>

definition press ::
  "key_env \<Rightarrow> key \<Rightarrow> bool \<Rightarrow> input_state \<Rightarrow> error + (input_event list \<times> input_state)" where
  "press ke k hold st =
     (case get_key_code (key_map ke) k of
        Inl err \<Rightarrow> Inl err
      | Inr key_code \<Rightarrow>
          (let sc = scan_code ke key_code;
               ext_flag = (if is_extended_key ke key_code then 1 else 0)
           in if hold then
                (if key_code \<notin> set (held_keys st)
                 then Inr ([KeyEvent key_code sc ext_flag],
                           st\<lparr>held_keys := held_keys st @ [key_code]\<rparr>)
                 else Inr ([], st))
              else Inr ([KeyEvent key_code sc ext_flag,
                         KeyEvent key_code sc (ext_flag OR 2)], st)))"

definition release ::
  "key_env \<Rightarrow> key \<Rightarrow> input_state \<Rightarrow> error + (input_event list \<times> input_state)" where
  "release ke k st =
     (case get_key_code (key_map ke) k of
        Inl err \<Rightarrow> Inl err
      | Inr key_code \<Rightarrow>
          (let sc = scan_code ke key_code;
               ext_flag = (if is_extended_key ke key_code then 1 else 0)
           in if key_code \<in> set (held_keys st)
              then Inr ([KeyEvent key_code sc (ext_flag OR 2)],
                        st\<lparr>held_keys := removeAll key_code (held_keys st)\<rparr>)
              else Inr ([], st)))"

definition left_click :: "bool \<Rightarrow> input_state \<Rightarrow> input_event list \<times> input_state" where
  "left_click hold st =
     (if hold then
        (if \<not> left_click_held st then ([MouseEvent 2], st\<lparr>left_click_held := True\<rparr>)
         else ([], st))
      else ([MouseEvent 2, MouseEvent 4], st))"

definition release_left_click :: "input_state \<Rightarrow> input_event list \<times> input_state" where
  "release_left_click st =
     (if left_click_held st then ([MouseEvent 4], st\<lparr>left_click_held := False\<rparr>)
      else ([], st))"

definition right_click :: "bool \<Rightarrow> input_state \<Rightarrow> input_event list \<times> input_state" where
  "right_click hold st =
     (if hold then
        (if \<not> right_click_held st then ([MouseEvent 8], st\<lparr>right_click_held := True\<rparr>)
         else ([], st))
      else ([MouseEvent 8, MouseEvent 16], st))"

definition release_right_click :: "input_state \<Rightarrow> input_event list \<times> input_state" where
  "release_right_click st =
     (if right_click_held st then ([MouseEvent 16], st\<lparr>right_click_held := False\<rparr>)
      else ([], st))"

text \<open>The loop \<open>for key_code in list(_held_keys): release(key_code)\<close> over the snapshot.\<close>

fun release_keys ::
  "key_env \<Rightarrow> int list \<Rightarrow> input_state \<Rightarrow> error + (input_event list \<times> input_state)" where
  "release_keys ke [] st = Inr ([], st)"
| "release_keys ke (key_code # ks) st =
     (case release ke (KeyCode key_code) st of
        Inl err \<Rightarrow> Inl err
      | Inr (evs, st') \<Rightarrow>
          (case release_keys ke ks st' of
             Inl err \<Rightarrow> Inl err
           | Inr (evs', st'') \<Rightarrow> Inr (evs @ evs', st'')))"

definition release_all ::
  "key_env \<Rightarrow> input_state \<Rightarrow> error + (input_event list \<times> input_state)" where
  "release_all ke st =
     (case release_keys ke (held_keys st) st of
        Inl err \<Rightarrow> Inl err
      | Inr (evs, st1) \<Rightarrow>
          (let (evs2, st2) = release_left_click st1;
               (evs3, st3) = release_right_click st2
           in Inr (evs @ evs2 @ evs3, st3)))"

text \<open>A call of one of the functions above, and the globals after a sequence of calls.\<close>

datatype call =
    Press key bool
  | Release key
  | ReleaseAll
  | LeftClick bool
  | ReleaseLeftClick
  | RightClick bool
  | ReleaseRightClick

fun do_call :: "key_env \<Rightarrow> call \<Rightarrow> input_state \<Rightarrow> error + (input_event list \<times> input_state)" where
  "do_call ke (Press k hold) st = press ke k hold st"
| "do_call ke (Release k) st = release ke k st"
| "do_call ke ReleaseAll st = release_all ke st"
| "do_call ke (LeftClick hold) st = Inr (left_click hold st)"
| "do_call ke ReleaseLeftClick st = Inr (release_left_click st)"
| "do_call ke (RightClick hold) st = Inr (right_click hold st)"
| "do_call ke ReleaseRightClick st = Inr (release_right_click st)"

definition next_state :: "key_env \<Rightarrow> input_state \<Rightarrow> call \<Rightarrow> input_state" where
  \<comment> \<open>a call that raises leaves the globals as they were\<close>
  "next_state ke st c = (case do_call ke c st of Inl err \<Rightarrow> st | Inr (evs, st') \<Rightarrow> st')"

definition state_after :: "key_env \<Rightarrow> call list \<Rightarrow> input_state" where
  "state_after ke cs = foldl (next_state ke) initial_state cs"

text \<open>
  The claim's words, for comparison with the code: an input is held after a sequence of
  calls when some call pressed it with \<open>hold=True\<close> and no later call released it.
\<close>

fun pressed_unreleased :: "(call \<Rightarrow> bool) \<Rightarrow> (call \<Rightarrow> bool) \<Rightarrow> call list \<Rightarrow> bool" where
  "pressed_unreleased pressing releasing [] = False"
| "pressed_unreleased pressing releasing (c # cs) =
     (pressed_unreleased pressing releasing cs
      \<or> (pressing c \<and> list_all (\<lambda>d. \<not> releasing d) cs))"

fun holds_key :: "key_env \<Rightarrow> int \<Rightarrow> call \<Rightarrow> bool" where
  "holds_key ke key_code (Press k hold) = (hold \<and> get_key_code (key_map ke) k = Inr key_code)"
| "holds_key ke key_code c = False"

fun frees_key :: "key_env \<Rightarrow> int \<Rightarrow> call \<Rightarrow> bool" where
  "frees_key ke key_code (Release k) = (get_key_code (key_map ke) k = Inr key_code)"
| "frees_key ke key_code ReleaseAll = True"
| "frees_key ke key_code c = False"

definition spec_key_held :: "key_env \<Rightarrow> call list \<Rightarrow> int \<Rightarrow> bool" where
  "spec_key_held ke cs key_code =
     pressed_unreleased (holds_key ke key_code) (frees_key ke key_code) cs"

definition spec_left_held :: "call list \<Rightarrow> bool" where
  "spec_left_held cs =
     pressed_unreleased (\<lambda>c. c = LeftClick True)
       (\<lambda>c. c = ReleaseLeftClick \<or> c = ReleaseAll) cs"

definition spec_right_held :: "call list \<Rightarrow> bool" where
  "spec_right_held cs =
     pressed_unreleased (\<lambda>c. c = RightClick True)
       (\<lambda>c. c = ReleaseRightClick \<or> c = ReleaseAll) cs"

section \<open>Concrete inputs\<close>

definition libm_cos :: "real \<Rightarrow> real" where
  \<comment> \<open>a correctly rounded cosine, -1 at \<open>math.pi\<close>\<close>
  "libm_cos t = (if t = math_pi then - 1 else fl (cos t))"

definition origin_env :: env where
  \<comment> \<open>cursor at the origin, no arc deviation, no jitter\<close>
  "origin_env = \<lparr>cursor = (0, 0), uniform_val = 0, randint_val = (\<lambda>n. 0), cos_val = libm_cos\<rparr>"

definition ticking_env :: timer_env where
  \<comment> \<open>every clock read is 30 ms after the one before, the macro stays active\<close>
  "ticking_env = \<lparr>clock = (\<lambda>k. real k * (3 / 100)), status = (\<lambda>c. True)\<rparr>"

definition stopped_env :: timer_env where
  \<comment> \<open>the same clock, the macro is already stopped\<close>
  "stopped_env = \<lparr>clock = (\<lambda>k. real k * (3 / 100)), status = (\<lambda>c. False)\<rparr>"

definition plain_keys :: key_env where
  \<comment> \<open>a two-entry key table, scan code equal to the key code, the arrow keys extended\<close>
  "plain_keys = \<lparr>key_map = [''enter'' \<mapsto> 13, ''a'' \<mapsto> 65],
                  scan_code = (\<lambda>vk. vk), extended_keys = [37, 38, 39, 40]\<rparr>"

definition holding_a :: input_state where
  \<comment> \<open>the key code 65 and the left button are held\<close>
  "holding_a = \<lparr>held_keys = [65], left_click_held = True, right_click_held = False\<rparr>"

definition stopping_env :: timer_env where
  \<comment> \<open>the same clock, the macro is stopped after the first check\<close>
  "stopping_env = \<lparr>clock = (\<lambda>k. real k * (3 / 100)), status = (\<lambda>c. c < 1)\<rparr>"

definition fine_env :: timer_env where
  \<comment> \<open>every clock read is half a millisecond after the one before, the macro stays active\<close>
  "fine_env = \<lparr>clock = (\<lambda>k. real k / 2000), status = (\<lambda>c. True)\<rparr>"

section \<open>Rounding to double precision\<close>

lemma py_int_frac: "\<bar>r - real_of_int (py_int r)\<bar> < 1"
  unfolding py_int_def by (auto; linarith)

lemma py_round_of_int: "py_round (real_of_int n) = n"
  by (simp add: py_round_def Let_def)

lemma py_round_near: "\<bar>q - real_of_int k\<bar> < 1 / 2 \<Longrightarrow> py_round q = k"
proof -
  assume a: "\<bar>q - real_of_int k\<bar> < 1 / 2"
  show ?thesis
  proof (cases "real_of_int k \<le> q")
    case True
    with a have "\<lfloor>q\<rfloor> = k" by (intro floor_unique) linarith+
    with a True show ?thesis by (simp add: py_round_def Let_def)
  next
    case False
    with a have f: "\<lfloor>q\<rfloor> = k - 1" by (intro floor_unique) (simp, linarith+)
    with a False have "1 / 2 < q - real_of_int \<lfloor>q\<rfloor>" by simp
    with f show ?thesis by (simp add: py_round_def Let_def)
  qed
qed

lemma py_round_err: "\<bar>q - real_of_int (py_round q)\<bar> \<le> 1 / 2"
proof -
  have "real_of_int \<lfloor>q\<rfloor> \<le> q" "q < real_of_int \<lfloor>q\<rfloor> + 1" by linarith+
  then show ?thesis by (auto simp: py_round_def Let_def)
qed

lemma py_round_mono: "q \<le> q' \<Longrightarrow> py_round q \<le> py_round q'"
proof -
  assume le: "q \<le> q'"
  show ?thesis
  proof (cases "\<lfloor>q\<rfloor> = \<lfloor>q'\<rfloor>")
    case True
    with le show ?thesis by (auto simp: py_round_def Let_def)
  next
    case False
    with le have "\<lfloor>q\<rfloor> + 1 \<le> \<lfloor>q'\<rfloor>" using floor_mono[OF le] by linarith
    moreover have "py_round q \<le> \<lfloor>q\<rfloor> + 1" by (auto simp: py_round_def Let_def)
    moreover have "\<lfloor>q'\<rfloor> \<le> py_round q'" by (auto simp: py_round_def Let_def)
    ultimately show ?thesis by linarith
  qed
qed

lemma py_round_minus: "py_round (- q) = - py_round q"
proof (cases "q = real_of_int \<lfloor>q\<rfloor>")
  case True
  then obtain n where "q = real_of_int n" by blast
  then have "- q = real_of_int (- n)" by simp
  then show ?thesis using \<open>q = real_of_int n\<close> py_round_of_int by metis
next
  case False
  then have nf: "\<lfloor>- q\<rfloor> = - \<lfloor>q\<rfloor> - 1"
    by (intro floor_unique) (simp, linarith, simp, linarith)
  have lt: "real_of_int \<lfloor>q\<rfloor> < q" using False by (metis of_int_floor_le order_less_le)
  have d: "- q - real_of_int \<lfloor>- q\<rfloor> = 1 - (q - real_of_int \<lfloor>q\<rfloor>)"
    by (simp add: nf)
  show ?thesis
    unfolding py_round_def Let_def d
    using lt by (auto simp: nf)
qed

lemma two_powr_int: "2 powr real_of_int k = (2::real) powi k"
  by (simp add: powr_real_of_int power_int_def inverse_eq_divide power_one_over)

lemma two_powi_pos [simp]: "0 < (2::real) powi k"
  by (simp add: power_int_def)

lemma two_powi_add: "(2::real) powi (a + b) = 2 powi a * 2 powi b"
  by (simp add: power_int_add)

lemma two_powi_mono: "a \<le> b \<Longrightarrow> (2::real) powi a \<le> 2 powi b"
  by (rule power_int_increasing) simp_all

lemma two_powi_less: "a < b \<Longrightarrow> (2::real) powi a < 2 powi b"
  by (rule power_int_strict_increasing) simp_all

lemma floor_log2_bounds:
  assumes "r \<noteq> 0"
  shows "2 powi \<lfloor>log 2 \<bar>r\<bar>\<rfloor> \<le> \<bar>r\<bar>" and "\<bar>r\<bar> < 2 powi (\<lfloor>log 2 \<bar>r\<bar>\<rfloor> + 1)"
proof -
  from assms have pos: "0 < \<bar>r\<bar>" by simp
  have "\<lfloor>log 2 \<bar>r\<bar>\<rfloor> = \<lfloor>log 2 \<bar>r\<bar>\<rfloor>" ..
  with floor_log_eq_powr_iff[OF pos, of 2 "\<lfloor>log 2 \<bar>r\<bar>\<rfloor>"]
  have "2 powr real_of_int \<lfloor>log 2 \<bar>r\<bar>\<rfloor> \<le> \<bar>r\<bar>"
    and "\<bar>r\<bar> < 2 powr (real_of_int \<lfloor>log 2 \<bar>r\<bar>\<rfloor> + 1)" by simp_all
  then show "2 powi \<lfloor>log 2 \<bar>r\<bar>\<rfloor> \<le> \<bar>r\<bar>" and "\<bar>r\<bar> < 2 powi (\<lfloor>log 2 \<bar>r\<bar>\<rfloor> + 1)"
    using two_powr_int[of "\<lfloor>log 2 \<bar>r\<bar>\<rfloor>"] two_powr_int[of "\<lfloor>log 2 \<bar>r\<bar>\<rfloor> + 1"]
    by simp_all
qed

lemma floor_log2_eq:
  assumes "2 powi e \<le> \<bar>r\<bar>" and "\<bar>r\<bar> < 2 powi (e + 1)"
  shows "\<lfloor>log 2 \<bar>r\<bar>\<rfloor> = e"
proof -
  from assms(1) have pos: "0 < \<bar>r\<bar>" using two_powi_pos[of e] by linarith
  from assms two_powr_int[of e] two_powr_int[of "e + 1"]
  have "2 powr real_of_int e \<le> \<bar>r\<bar> \<and> \<bar>r\<bar> < 2 powr (real_of_int e + 1)" by simp
  with floor_log_eq_powr_iff[OF pos, of 2 e] show ?thesis by simp
qed

lemma expo_ge: "- 1022 \<le> expo r"
  by (simp add: expo_def)

lemma expo_upper: "r \<noteq> 0 \<Longrightarrow> \<bar>r\<bar> < 2 powi (expo r + 1)"
proof -
  assume "r \<noteq> 0"
  from floor_log2_bounds(2)[OF this]
  have "\<bar>r\<bar> < 2 powi (\<lfloor>log 2 \<bar>r\<bar>\<rfloor> + 1)" .
  also have "\<dots> \<le> 2 powi (expo r + 1)"
    by (rule two_powi_mono) (simp add: expo_def)
  finally show ?thesis .
qed

lemma expo_normal:
  "2 powi e \<le> \<bar>r\<bar> \<Longrightarrow> \<bar>r\<bar> < 2 powi (e + 1) \<Longrightarrow> - 1022 \<le> e \<Longrightarrow> expo r = e"
  using floor_log2_eq[of e r] by (simp add: expo_def)

lemma expo_lower: "2 powi (- 1022) \<le> \<bar>r\<bar> \<Longrightarrow> 2 powi (expo r) \<le> \<bar>r\<bar>"
proof -
  assume a: "2 powi (- 1022) \<le> \<bar>r\<bar>"
  with two_powi_pos[of "- 1022"] have "0 < \<bar>r\<bar>" by linarith
  then have "r \<noteq> 0" by simp
  from floor_log2_bounds[OF this] have b: "2 powi \<lfloor>log 2 \<bar>r\<bar>\<rfloor> \<le> \<bar>r\<bar>" by simp
  show ?thesis
  proof (cases "- 1022 \<le> \<lfloor>log 2 \<bar>r\<bar>\<rfloor>")
    case True
    then have "expo r = \<lfloor>log 2 \<bar>r\<bar>\<rfloor>" by (simp add: expo_def)
    with b show ?thesis by simp
  next
    case False
    then have "expo r = - 1022" by (simp add: expo_def)
    with a show ?thesis by simp
  qed
qed

lemma expo_minus [simp]: "expo (- r) = expo r"
  by (simp add: expo_def)

lemma ulp_minus [simp]: "ulp (- r) = ulp r"
  by (simp add: ulp_def)

lemma ulp_pos [simp]: "0 < ulp r"
  by (simp add: ulp_def)

lemma ulp_nonzero [simp]: "ulp r \<noteq> 0"
  by (simp add: ulp_def)

lemma fl_zero [simp]: "fl 0 = 0"
  by (simp add: fl_def)

lemma fl_minus: "fl (- r) = - fl r"
  by (simp add: fl_def py_round_minus)

lemma fl_value:
  assumes "2 powi e \<le> \<bar>r\<bar>" "\<bar>r\<bar> < 2 powi (e + 1)" "- 1022 \<le> e"
    and "\<bar>r / 2 powi (e - 52) - real_of_int k\<bar> < 1 / 2"
  shows "fl r = real_of_int k * 2 powi (e - 52)"
proof -
  from assms(1) two_powi_pos[of e] have "0 < \<bar>r\<bar>" by linarith
  then have "r \<noteq> 0" by simp
  moreover from expo_normal[OF assms(1-3)] have "ulp r = 2 powi (e - 52)" by (simp add: ulp_def)
  ultimately show ?thesis using py_round_near[OF assms(4)] by (simp add: fl_def)
qed

text \<open>Numbers of the form m * 2^q with fewer than 53 bits in m are doubles.\<close>

lemma fl_dyadic:
  assumes m: "\<bar>m\<bar> < 2 ^ 53" and q: "- 1074 \<le> q"
  shows "fl (real_of_int m * 2 powi q) = real_of_int m * 2 powi q"
proof (cases "m = 0")
  case True
  then show ?thesis by simp
next
  case False
  let ?r = "real_of_int m * 2 powi q"
  from False have nz: "?r \<noteq> 0" by simp
  have abs_r: "\<bar>?r\<bar> = real_of_int \<bar>m\<bar> * 2 powi q" by (simp add: abs_mult)
  from m have "real_of_int \<bar>m\<bar> < 2 ^ 53"
    by (metis of_int_less_iff of_int_numeral of_int_power)
  then have "\<bar>?r\<bar> < 2 ^ 53 * 2 powi q" unfolding abs_r by simp
  also have "\<dots> = 2 powi (q + 53)" by (simp add: power_int_add)
  finally have up: "\<bar>?r\<bar> < 2 powi (q + 53)" .
  have "\<lfloor>log 2 \<bar>?r\<bar>\<rfloor> < q + 53"
  proof (rule ccontr)
    assume "\<not> \<lfloor>log 2 \<bar>?r\<bar>\<rfloor> < q + 53"
    then have "2 powi (q + 53) \<le> (2::real) powi \<lfloor>log 2 \<bar>?r\<bar>\<rfloor>"
      by (intro two_powi_mono) simp
    with floor_log2_bounds(1)[OF nz] up show False by linarith
  qed
  with q have e: "expo ?r \<le> q + 52" by (simp add: expo_def)
  define k where "k = nat (q + 52 - expo ?r)"
  from e have kq: "q = expo ?r - 52 + int k" by (simp add: k_def)
  have uq: "2 powi q = 2 ^ k * ulp ?r"
    unfolding ulp_def by (subst kq) (simp add: power_int_add)
  have unz: "ulp ?r \<noteq> 0" by (rule ulp_nonzero)
  have "?r / ulp ?r = real_of_int m * (2 ^ k * ulp ?r) / ulp ?r"
    by (simp only: uq[symmetric])
  also have "\<dots> = real_of_int m * 2 ^ k" using unz by simp
  finally have quot: "?r / ulp ?r = real_of_int (m * 2 ^ k)" by simp
  have "fl ?r = real_of_int (m * 2 ^ k) * ulp ?r"
    using nz unfolding fl_def quot py_round_of_int by simp
  also have "\<dots> = ?r / ulp ?r * ulp ?r" by (simp only: quot)
  also have "\<dots> = ?r" using unz by simp
  finally show ?thesis .
qed

lemma fl_of_int: "\<bar>n\<bar> \<le> 2 ^ 53 \<Longrightarrow> fl (real_of_int n) = real_of_int n"
proof -
  assume a: "\<bar>n\<bar> \<le> 2 ^ 53"
  show ?thesis
  proof (cases "\<bar>n\<bar> < 2 ^ 53")
    case True
    from fl_dyadic[OF True, of 0] show ?thesis by simp
  next
    case False
    with a have "\<bar>n\<bar> = 2 ^ 53" by simp
    then consider "n = 2 ^ 53" | "n = - (2 ^ 53)" by linarith
    then show ?thesis
    proof cases
      case 1
      have "fl (real_of_int 1 * 2 powi 53) = real_of_int 1 * 2 powi 53"
        by (rule fl_dyadic) simp_all
      with 1 show ?thesis by simp
    next
      case 2
      have "fl (real_of_int (- 1) * 2 powi 53) = real_of_int (- 1) * 2 powi 53"
        by (rule fl_dyadic) simp_all
      with 2 show ?thesis by simp
    qed
  qed
qed

lemma fl_pow2: "- 1074 \<le> q \<Longrightarrow> fl (2 powi q) = 2 powi q"
  using fl_dyadic[of 1 q] by simp

lemma two_powi_nat: "(2::real) powi (a + int n) = 2 powi a * 2 ^ n"
  by (simp add: power_int_add)

lemma ulp_53: "(2::real) ^ 53 * 2 powi (e - 52) = 2 powi (e + 1)"
  using two_powi_nat[of "e - 52" 53] by (simp add: add.commute mult.commute)

lemma expo_zero: "expo 0 \<le> 0"
  by (simp add: expo_def log_def)

lemma ulp_52: "2 powi (e - 52) = 2 powi e * (2::real) powi (- 52)"
  using power_int_add[of "2::real" e "- 52"] by simp

lemma quot_bound: "r \<noteq> 0 \<Longrightarrow> \<bar>r / ulp r\<bar> < 2 ^ 53"
proof -
  assume nz: "r \<noteq> 0"
  have "\<bar>r\<bar> < 2 powi (expo r + 1)" by (rule expo_upper[OF nz])
  also have "\<dots> = 2 ^ 53 * ulp r"
    unfolding ulp_def by (rule ulp_53[symmetric])
  finally have "\<bar>r\<bar> / ulp r < 2 ^ 53"
    using ulp_pos[of r] by (simp add: pos_divide_less_eq)
  then show ?thesis using ulp_pos[of r] by (simp del: ulp_pos)
qed

lemma py_round_bound: "\<bar>q\<bar> \<le> real_of_int n \<Longrightarrow> \<bar>py_round q\<bar> \<le> n"
proof -
  assume a: "\<bar>q\<bar> \<le> real_of_int n"
  then have "q \<le> real_of_int n" "real_of_int (- n) \<le> q" by simp_all
  from py_round_mono[OF this(1)] py_round_mono[OF this(2)]
  show ?thesis by (simp add: py_round_of_int del: of_int_minus) 
qed

lemma fl_form:
  assumes "r \<noteq> 0"
  shows "fl r = real_of_int (py_round (r / ulp r)) * 2 powi (expo r - 52)"
    and "\<bar>py_round (r / ulp r)\<bar> \<le> 2 ^ 53"
proof -
  show "fl r = real_of_int (py_round (r / ulp r)) * 2 powi (expo r - 52)"
    using assms by (simp add: fl_def ulp_def)
  from quot_bound[OF assms] have "\<bar>r / ulp r\<bar> \<le> real_of_int (2 ^ 53)" by simp
  from py_round_bound[OF this] show "\<bar>py_round (r / ulp r)\<bar> \<le> 2 ^ 53" .
qed

lemma fl_idem [simp]: "fl (fl r) = fl r"
proof (cases "r = 0")
  case True
  then show ?thesis by simp
next
  case False
  let ?K = "py_round (r / ulp r)"
  note f = fl_form[OF False]
  have q: "- 1074 \<le> expo r - 52" using expo_ge[of r] by simp
  show ?thesis
  proof (cases "\<bar>?K\<bar> < 2 ^ 53")
    case True
    from fl_dyadic[OF True q] f(1) show ?thesis by simp
  next
    case False
    with f(2) have "\<bar>?K\<bar> = 2 ^ 53" by simp
    then consider "?K = 2 ^ 53" | "?K = - (2 ^ 53)" by linarith
    then show ?thesis
    proof cases
      case 1
      then have "fl r = real_of_int 1 * 2 powi (expo r + 1)"
        using f(1) ulp_53[of "expo r"] by simp
      moreover have "fl (real_of_int 1 * 2 powi (expo r + 1)) = real_of_int 1 * 2 powi (expo r + 1)"
        by (rule fl_dyadic) (use q in simp_all)
      ultimately show ?thesis by simp
    next
      case 2
      then have "fl r = real_of_int (- 1) * 2 powi (expo r + 1)"
        using f(1) ulp_53[of "expo r"] by simp
      moreover have "fl (real_of_int (- 1) * 2 powi (expo r + 1))
                     = real_of_int (- 1) * 2 powi (expo r + 1)"
        by (rule fl_dyadic) (use q in simp_all)
      ultimately show ?thesis by simp
    qed
  qed
qed

lemma is_double_fl [simp]: "is_double (fl r)"
  by (simp add: is_double_def)

lemma fl_error_ulp: "\<bar>fl r - r\<bar> \<le> ulp r / 2"
proof (cases "r = 0")
  case True
  then show ?thesis using ulp_pos[of 0] by (simp del: ulp_pos)
next
  case False
  have "fl r - r = (real_of_int (py_round (r / ulp r)) - r / ulp r) * ulp r"
    using False by (simp add: fl_def algebra_simps)
  then have "\<bar>fl r - r\<bar> = \<bar>real_of_int (py_round (r / ulp r)) - r / ulp r\<bar> * ulp r"
    using ulp_pos[of r] by (simp add: abs_mult del: ulp_pos)
  also have "\<dots> \<le> 1 / 2 * ulp r"
    using py_round_err[of "r / ulp r"] ulp_pos[of r]
    by (intro mult_right_mono) (simp_all add: abs_minus_commute del: ulp_pos)
  finally show ?thesis by simp
qed

lemma ulp_le: "\<bar>r\<bar> \<le> M \<Longrightarrow> 1 \<le> M \<Longrightarrow> ulp r \<le> M * 2 powi (- 52)"
proof (cases "2 powi (- 1022) \<le> \<bar>r\<bar>")
  case True
  assume a: "\<bar>r\<bar> \<le> M"
  have "ulp r = 2 powi (expo r) * 2 powi (- 52)"
    unfolding ulp_def by (rule ulp_52)
  also have "\<dots> \<le> \<bar>r\<bar> * 2 powi (- 52)"
    by (intro mult_right_mono expo_lower[OF True]) simp
  also have "\<dots> \<le> M * 2 powi (- 52)"
    by (intro mult_right_mono a) simp
  finally show ?thesis .
next
  case False
  assume m: "1 \<le> M"
  from False have "r = 0 \<or> \<lfloor>log 2 \<bar>r\<bar>\<rfloor> < - 1022"
  proof (cases "r = 0")
    case True then show ?thesis by simp
  next
    case nz: False
    have "\<lfloor>log 2 \<bar>r\<bar>\<rfloor> < - 1022"
    proof (rule ccontr)
      assume "\<not> \<lfloor>log 2 \<bar>r\<bar>\<rfloor> < - 1022"
      then have "(2::real) powi (- 1022) \<le> 2 powi \<lfloor>log 2 \<bar>r\<bar>\<rfloor>"
        by (intro two_powi_mono) simp
      with floor_log2_bounds(1)[OF nz] False show False by linarith
    qed
    then show ?thesis by simp
  qed
  then have "expo r \<le> 0"
    using expo_zero by (auto simp: expo_def)
  then have "2 powi (expo r) \<le> (2::real) powi 0" by (rule two_powi_mono)
  then have "2 powi (expo r) \<le> M" using m by simp
  have "ulp r = 2 powi (expo r) * 2 powi (- 52)"
    unfolding ulp_def by (rule ulp_52)
  also have "\<dots> \<le> M * 2 powi (- 52)"
    by (intro mult_right_mono \<open>2 powi (expo r) \<le> M\<close>) simp
  finally show ?thesis .
qed

lemma fl_error: "\<bar>r\<bar> \<le> M \<Longrightarrow> 1 \<le> M \<Longrightarrow> \<bar>fl r - r\<bar> \<le> M * 2 powi (- 53)"
proof -
  assume a: "\<bar>r\<bar> \<le> M" "1 \<le> M"
  have "\<bar>fl r - r\<bar> \<le> ulp r / 2" by (rule fl_error_ulp)
  also have "\<dots> \<le> M * 2 powi (- 52) / 2" using ulp_le[OF a] by simp
  also have "\<dots> = M * 2 powi (- 53)" by simp
  finally show ?thesis .
qed

lemma expo_mono: "r \<noteq> 0 \<Longrightarrow> \<bar>r\<bar> \<le> \<bar>s\<bar> \<Longrightarrow> expo r \<le> expo s"
proof -
  assume "r \<noteq> 0" "\<bar>r\<bar> \<le> \<bar>s\<bar>"
  then have "log 2 \<bar>r\<bar> \<le> log 2 \<bar>s\<bar>" by simp
  then have "\<lfloor>log 2 \<bar>r\<bar>\<rfloor> \<le> \<lfloor>log 2 \<bar>s\<bar>\<rfloor>" by (rule floor_mono)
  then show ?thesis by (simp add: expo_def)
qed

lemma py_round_zero [simp]: "py_round 0 = 0"
  using py_round_of_int[of 0] by simp

lemma fl_nonneg: "0 \<le> r \<Longrightarrow> 0 \<le> fl r"
proof -
  assume a: "0 \<le> r"
  then have "0 \<le> r / ulp r" using ulp_pos[of r] by (simp del: ulp_pos)
  from py_round_mono[OF this] have "0 \<le> py_round (r / ulp r)" by simp
  then show ?thesis using ulp_pos[of r] by (simp add: fl_def del: ulp_pos)
qed

lemma fl_mono_pos:
  assumes "0 < r" "r \<le> s"
  shows "fl r \<le> fl s"
proof -
  from assms have rnz: "r \<noteq> 0" and snz: "s \<noteq> 0" and abs: "\<bar>r\<bar> \<le> \<bar>s\<bar>" by simp_all
  from expo_mono[OF rnz abs] have le: "expo r \<le> expo s" .
  show ?thesis
  proof (cases "expo r = expo s")
    case True
    then have u: "ulp r = ulp s" by (simp add: ulp_def)
    from assms(2) have "r / ulp s \<le> s / ulp s"
      using ulp_pos[of s] by (simp add: divide_right_mono del: ulp_pos)
    from py_round_mono[OF this] have "py_round (r / ulp s) \<le> py_round (s / ulp s)" .
    then show ?thesis
      using rnz snz ulp_pos[of s] by (simp add: fl_def u del: ulp_pos)
  next
    case False
    with le have lt: "expo r + 1 \<le> expo s" by simp
    note fr = fl_form[OF rnz]
    from fr(2) have "real_of_int (py_round (r / ulp r)) \<le> 2 ^ 53"
      by (metis abs_le_D1 of_int_le_iff of_int_numeral of_int_power)
    then have "fl r \<le> 2 ^ 53 * 2 powi (expo r - 52)"
      unfolding fr(1) by (intro mult_right_mono) simp_all
    also have "\<dots> = 2 powi (expo r + 1)" by (rule ulp_53)
    also have "\<dots> \<le> 2 powi (expo s)" by (rule two_powi_mono[OF lt])
    finally have up: "fl r \<le> 2 powi (expo s)" .
    from lt expo_ge[of r] have big: "- 1022 < expo s" by simp
    then have es: "expo s = \<lfloor>log 2 \<bar>s\<bar>\<rfloor>" by (simp add: expo_def)
    from floor_log2_bounds(1)[OF snz] es assms have "2 powi (expo s) \<le> s" by simp
    then have "2 powi (expo s) / ulp s \<le> s / ulp s"
      using ulp_pos[of s] by (simp add: divide_right_mono del: ulp_pos)
    moreover have "2 powi (expo s) / ulp s = real_of_int (2 ^ 52)"
      unfolding ulp_def ulp_52[of "expo s"] by (simp add: power_int_minus field_simps)
    ultimately have "real_of_int (2 ^ 52) \<le> s / ulp s" by simp
    from py_round_mono[OF this] have "2 ^ 52 \<le> py_round (s / ulp s)"
      by (simp only: py_round_of_int)
    then have "(2::real) ^ 52 \<le> real_of_int (py_round (s / ulp s))"
      by (metis of_int_le_iff of_int_numeral of_int_power)
    then have "2 ^ 52 * 2 powi (expo s - 52) \<le> fl s"
      unfolding fl_form(1)[OF snz] by (intro mult_right_mono) simp_all
    moreover have "(2::real) ^ 52 * 2 powi (expo s - 52) = 2 powi (expo s)"
      unfolding ulp_52[of "expo s"] by (simp add: power_int_minus field_simps)
    ultimately have "2 powi (expo s) \<le> fl s" by simp
    with up show ?thesis by linarith
  qed
qed

lemma fl_mono: "r \<le> s \<Longrightarrow> fl r \<le> fl s"
proof -
  assume le: "r \<le> s"
  consider (pos) "0 < r" | (mid) "r \<le> 0" "0 \<le> s" | (neg) "s < 0" by linarith
  then show ?thesis
  proof cases
    case pos
    from fl_mono_pos[OF pos le] show ?thesis .
  next
    case mid
    from fl_nonneg[OF mid(2)] fl_nonneg[of "- r"] mid(1) show ?thesis
      by (simp add: fl_minus)
  next
    case neg
    with le have "0 < - s" "- s \<le> - r" by simp_all
    from fl_mono_pos[OF this] show ?thesis by (simp add: fl_minus)
  qed
qed

lemma fl_le: "r \<le> M \<Longrightarrow> is_double M \<Longrightarrow> fl r \<le> M"
  using fl_mono[of r M] by (simp add: is_double_def)

lemma fl_ge: "M \<le> r \<Longrightarrow> is_double M \<Longrightarrow> M \<le> fl r"
  using fl_mono[of M r] by (simp add: is_double_def)

lemma is_double_minus: "is_double M \<Longrightarrow> is_double (- M)"
  by (simp add: is_double_def fl_minus)

lemma fl_abs_le: "\<bar>r\<bar> \<le> M \<Longrightarrow> is_double M \<Longrightarrow> \<bar>fl r\<bar> \<le> M"
proof -
  assume a: "\<bar>r\<bar> \<le> M" and d: "is_double M"
  then have "r \<le> M" "- M \<le> r" by simp_all
  from fl_le[OF this(1) d] fl_ge[OF this(2) is_double_minus[OF d]]
  show ?thesis by simp
qed

lemma is_double_of_int: "\<bar>n\<bar> \<le> 2 ^ 53 \<Longrightarrow> is_double (real_of_int n)"
  by (simp add: is_double_def fl_of_int)

lemma is_double_pow2: "- 1074 \<le> q \<Longrightarrow> is_double (2 powi q)"
  by (simp add: is_double_def fl_pow2)

lemma is_double_numerals [simp]:
  "is_double 0" "is_double 1" "is_double 2" "is_double (- 1)"
  using is_double_of_int[of 0] is_double_of_int[of 1] is_double_of_int[of 2]
    is_double_of_int[of "- 1"]
  by simp_all

lemma double_form:
  assumes "is_double a" "a \<noteq> 0"
  shows "a = real_of_int (py_round (a / ulp a)) * 2 powi (expo a - 52)"
  using fl_form(1)[OF assms(2)] assms(1) by (simp add: is_double_def)

lemma expo_one_le: "1 \<le> \<bar>a\<bar> \<Longrightarrow> 0 \<le> expo a"
proof -
  assume a: "1 \<le> \<bar>a\<bar>"
  have "expo 1 = 0" by (rule expo_normal) simp_all
  moreover from a have "expo 1 \<le> expo a" by (intro expo_mono) simp_all
  ultimately show ?thesis by simp
qed

lemma py_int_small: "\<bar>a\<bar> < 1 \<Longrightarrow> py_int a = 0"
  unfolding py_int_def by (auto simp: floor_eq_iff ceiling_eq_iff)

lemma py_int_of_int [simp]: "py_int (real_of_int n) = n"
  by (simp add: py_int_def)

lemma py_int_abs_le: "\<bar>real_of_int (py_int a)\<bar> \<le> \<bar>a\<bar>"
  unfolding py_int_def by (auto; linarith)

lemma trunc_exact:
  assumes d: "is_double a"
  shows "is_double (real_of_int (py_int a))"
    and "is_double (a - real_of_int (py_int a))"
proof -
  have "is_double (real_of_int (py_int a)) \<and> is_double (a - real_of_int (py_int a))"
  proof (cases "\<bar>a\<bar> < 1")
    case True
    with d show ?thesis by (simp add: py_int_small)
  next
    case False
    then have big: "1 \<le> \<bar>a\<bar>" and nz: "a \<noteq> 0" by auto
    let ?K = "py_round (a / ulp a)"
    let ?q = "expo a - 52"
    note form = double_form[OF d nz]
    from expo_one_le[OF big] have e0: "0 \<le> expo a" .
    show ?thesis
    proof (cases "0 \<le> ?q")
      case True
      then have "2 powi ?q = (2::real) ^ nat ?q" by (simp add: power_int_def)
      with form have "a = real_of_int (?K * 2 ^ nat ?q)" by simp
      then obtain n where n: "a = real_of_int n" ..
      with d show ?thesis by simp
    next
      case neg: False
      define p where "p = nat (- ?q)"
      from neg e0 have p: "?q = - int p" "p \<le> 52" "0 < p" by (simp_all add: p_def)
      have pw: "2 powi ?q * (2::real) ^ p = 1"
        unfolding p(1) by (simp add: power_int_minus)
      let ?n = "py_int a"
      have "\<bar>a\<bar> < 2 powi (expo a + 1)" by (rule expo_upper[OF nz])
      also have "\<dots> \<le> 2 powi 52" using neg by (intro two_powi_mono) simp
      finally have "\<bar>a\<bar> < 2 ^ 52" by simp
      with py_int_abs_le[of a] have "\<bar>real_of_int ?n\<bar> < 2 ^ 52" by linarith
      then have "\<bar>?n\<bar> < 2 ^ 52"
        by (metis (mono_tags) of_int_abs of_int_less_iff of_int_numeral of_int_power)
      then have first: "is_double (real_of_int ?n)" by (intro is_double_of_int) simp
      define m where "m = ?K - ?n * 2 ^ p"
      have "real_of_int m * 2 powi ?q
            = real_of_int ?K * 2 powi ?q - real_of_int ?n * (2 powi ?q * 2 ^ p)"
        by (simp add: m_def algebra_simps)
      also have "\<dots> = a - real_of_int ?n" using form pw by simp
      finally have frac: "a - real_of_int ?n = real_of_int m * 2 powi ?q" by simp
      have "\<bar>real_of_int m\<bar> = \<bar>a - real_of_int ?n\<bar> * 2 ^ p"
      proof -
        have "real_of_int m = real_of_int m * (2 powi ?q * 2 ^ p)" using pw by simp
        also have "\<dots> = (a - real_of_int ?n) * 2 ^ p" using frac by (simp add: mult.assoc)
        finally show ?thesis by (simp add: abs_mult)
      qed
      also have "\<dots> < 1 * 2 ^ p"
        using py_int_frac[of a] by (intro mult_strict_right_mono) simp_all
      also have "\<dots> \<le> 2 ^ 52" using power_increasing[OF p(2), of "2::real"] by simp
      finally have "\<bar>real_of_int m\<bar> < 2 ^ 53" by simp
      then have mb: "\<bar>m\<bar> < 2 ^ 53"
        by (metis (mono_tags) of_int_abs of_int_less_iff of_int_numeral of_int_power)
      have "- 1074 \<le> ?q" using e0 by simp
      from fl_dyadic[OF mb this] have "is_double (real_of_int m * 2 powi ?q)"
        by (simp add: is_double_def)
      with frac first show ?thesis by simp
    qed
  qed
  then show "is_double (real_of_int (py_int a))"
    and "is_double (a - real_of_int (py_int a))" by simp_all
qed

lemma fl_large_even:
  assumes "2 ^ 53 \<le> \<bar>r\<bar>"
  shows "even_real (fl r)"
proof -
  from assms have nz: "r \<noteq> 0" by auto
  have "expo (2 ^ 53) = 53" by (rule expo_normal) simp_all
  moreover from assms have "expo (2 ^ 53) \<le> expo r" by (intro expo_mono) simp_all
  ultimately have e: "53 \<le> expo r" by simp
  define p where "p = nat (expo r - 53)"
  have "expo r - 52 = int (Suc p)" using e by (simp add: p_def)
  then have "2 powi (expo r - 52) = (2::real) ^ Suc p" by (simp only: power_int_of_nat)
  with fl_form(1)[OF nz]
  have "fl r = real_of_int (2 * (py_round (r / ulp r) * 2 ^ p))" by simp
  then show ?thesis unfolding even_real_def by blast
qed

lemma fl_even: "even_real r \<Longrightarrow> even_real (fl r)"
proof (cases "2 ^ 53 \<le> \<bar>r\<bar>")
  case True
  then show ?thesis by (rule fl_large_even)
next
  case False
  assume "even_real r"
  then obtain k where k: "r = real_of_int (2 * k)" unfolding even_real_def by blast
  with False have "\<bar>real_of_int (2 * k)\<bar> < 2 ^ 53" by simp
  then have "\<bar>2 * k\<bar> < 2 ^ 53"
    by (metis (mono_tags) of_int_abs of_int_less_iff of_int_numeral of_int_power)
  then have "fl (real_of_int (2 * k)) = real_of_int (2 * k)" by (intro fl_of_int) simp
  with k show ?thesis unfolding even_real_def by metis
qed

lemma even_real_zero [simp]: "even_real 0"
  unfolding even_real_def by (rule exI[of _ 0]) simp

lemma even_real_add: "even_real a \<Longrightarrow> even_real b \<Longrightarrow> even_real (a + b)"
  unfolding even_real_def
  by (metis distrib_left of_int_add)

lemma even_real_diff: "even_real a \<Longrightarrow> even_real b \<Longrightarrow> even_real (a - b)"
  unfolding even_real_def
  by (metis right_diff_distrib of_int_diff)

lemma below_one:
  assumes d: "is_double a" and lt: "a < 1"
  shows "a \<le> 1 - 2 powi (- 53)"
proof (cases "a < 1 / 2")
  case True
  have "(2::real) powi (- 53) \<le> 2 powi (- 1)" by (rule two_powi_mono) simp
  then have "(2::real) powi (- 53) \<le> 1 / 2" by (simp add: power_int_minus)
  with True show ?thesis by linarith
next
  case False
  then have half: "1 / 2 \<le> a" by simp
  then have nz: "a \<noteq> 0" by auto
  have e: "expo a = - 1"
    by (rule expo_normal) (use half lt in \<open>simp_all add: power_int_minus\<close>)
  let ?K = "py_round (a / ulp a)"
  from double_form[OF d nz] e have form: "a = real_of_int ?K * 2 powi (- 53)" by simp
  have "real_of_int ?K * 2 powi (- 53) < 1 * 1" using lt form by simp
  also have "\<dots> = 2 ^ 53 * 2 powi (- 53)" by (simp add: power_int_minus)
  finally have "real_of_int ?K < 2 ^ 53" by (simp only: mult_less_cancel_right_pos[OF two_powi_pos])
  then have "?K < 2 ^ 53"
    by (metis (mono_tags) of_int_less_iff of_int_numeral of_int_power)
  then have "?K \<le> 2 ^ 53 - 1" by simp
  then have "real_of_int ?K \<le> 2 ^ 53 - 1"
    by (metis (mono_tags) of_int_le_iff of_int_numeral of_int_power of_int_diff of_int_1)
  then have "real_of_int ?K * 2 powi (- 53) \<le> (2 ^ 53 - 1) * 2 powi (- 53)"
    by (intro mult_right_mono) simp_all
  also have "\<dots> = 1 - 2 powi (- 53)" by (simp add: power_int_minus algebra_simps)
  finally show ?thesis using form by simp
qed

lemma one_minus_gap:
  assumes "is_double a" "a \<le> 1"
  shows "fl (1 - a) = 0 \<or> 2 powi (- 53) \<le> fl (1 - a)"
proof (cases "a = 1")
  case True
  then show ?thesis by simp
next
  case False
  with assms(2) have "a < 1" by simp
  from below_one[OF assms(1) this] have "2 powi (- 53) \<le> 1 - a" by simp
  from fl_ge[OF this is_double_pow2] show ?thesis by simp
qed
section \<open>Relative motion: the accumulator\<close>

lemma delta_sum_append:
  "delta_sum (xs @ ys) = (fst (delta_sum xs) + fst (delta_sum ys), snd (delta_sum xs) + snd (delta_sum ys))"
proof (induction xs rule: delta_sum.induct)
  case 1 show ?case by simp
next
  case (2 dx dy evs) then show ?case by (simp add: split_beta)
next
  case (3 x y evs) then show ?case by simp
qed

lemma is_double_math_pi: "is_double math_pi"
proof -
  have eq: "real_of_int 884279719003555 * 2 powi (- 48) = math_pi"
    by (simp add: math_pi_def power_int_minus)
  have "fl (real_of_int 884279719003555 * 2 powi (- 48)) = real_of_int 884279719003555 * 2 powi (- 48)"
    by (rule fl_dyadic) simp_all
  then show ?thesis unfolding eq is_double_def .
qed

lemma is_double_power: "is_double (2 ^ n)"
  using is_double_pow2[of "int n"] by simp

lemma fl_int32: "\<bar>x\<bar> \<le> 2 ^ 31 \<Longrightarrow> fl (real_of_int x) = real_of_int x"
  by (rule fl_of_int) simp

lemma fl_half_int32: "\<bar>x\<bar> \<le> 2 ^ 31 \<Longrightarrow> fl (real_of_int x / 2) = real_of_int x / 2"
proof -
  assume "\<bar>x\<bar> \<le> 2 ^ 31"
  then have "\<bar>x\<bar> < 2 ^ 53" by simp
  from fl_dyadic[OF this, of "- 1"] show ?thesis
    by (simp add: power_int_minus)
qed

lemma fl_unit: "0 \<le> r \<Longrightarrow> r \<le> 1 \<Longrightarrow> 0 \<le> fl r \<and> fl r \<le> 1"
  using fl_nonneg[of r] fl_le[of r 1] by simp

lemma eased_range:
  assumes "libm_ok en"
  shows "0 \<le> eased en i n" and "eased en i n \<le> 1" and "is_double (eased en i n)"
proof -
  let ?c = "cos_val en (fl (fl (real_of_int i / real_of_int n) * math_pi))"
  from assms have c: "- 1 \<le> ?c" "?c \<le> 1" by (simp_all add: libm_ok_def)
  then have "0 \<le> 1 - ?c" "1 - ?c \<le> 2" by simp_all
  from fl_nonneg[OF this(1)] fl_le[OF this(2)]
  have "0 \<le> fl (1 - ?c) / 2" "fl (1 - ?c) / 2 \<le> 1" by simp_all
  from fl_unit[OF this]
  show "0 \<le> eased en i n" and "eased en i n \<le> 1" by (simp_all add: eased_def Let_def)
  show "is_double (eased en i n)" by (simp add: eased_def Let_def)
qed

lemma eased_last:
  assumes "libm_ok en" and "0 < n"
  shows "eased en n n = 1"
proof -
  from assms(2) have "real_of_int n / real_of_int n = 1" by simp
  moreover have "fl math_pi = math_pi" using is_double_math_pi by (simp add: is_double_def)
  moreover from assms(1) have "cos_val en math_pi = - 1" by (simp add: libm_ok_def)
  moreover have "fl 1 = 1" "fl 2 = 2" using is_double_numerals by (simp_all add: is_double_def)
  ultimately show ?thesis by (simp add: eased_def Let_def)
qed

lemma rel_curve_one: "is_double x \<Longrightarrow> rel_curve mid x 1 = x"
proof -
  assume "is_double x"
  moreover have "fl 1 = 1" using is_double_numerals by (simp add: is_double_def)
  ultimately show ?thesis by (simp add: rel_curve_def Let_def is_double_def)
qed

lemma rel_curve_bound:
  assumes e: "0 \<le> e" "e \<le> 1" and m: "\<bar>mid\<bar> \<le> 2 ^ 30" and x: "\<bar>x\<bar> \<le> 2 ^ 31"
  shows "\<bar>rel_curve mid x e\<bar> \<le> 2 ^ 32"
proof -
  let ?inv = "fl (1 - e)"
  from e have "0 \<le> 1 - e" "1 - e \<le> 1" by simp_all
  from fl_unit[OF this] have inv: "0 \<le> ?inv" "?inv \<le> 1" by simp_all
  then have "0 \<le> 2 * ?inv" "2 * ?inv \<le> 2" by simp_all
  from fl_nonneg[OF this(1)] fl_le[OF this(2)]
  have a1: "0 \<le> fl (2 * ?inv)" "fl (2 * ?inv) \<le> 2" by simp_all
  have "0 \<le> fl (2 * ?inv) * e" using a1(1) e(1) by simp
  moreover have "fl (2 * ?inv) * e \<le> 2 * 1" using a1 e by (intro mult_mono) simp_all
  ultimately have a2: "0 \<le> fl (fl (2 * ?inv) * e)" "fl (fl (2 * ?inv) * e) \<le> 2"
    using fl_nonneg[of "fl (2 * ?inv) * e"] fl_le[of "fl (2 * ?inv) * e" 2] by simp_all
  have "\<bar>fl (fl (2 * ?inv) * e) * mid\<bar> \<le> 2 * 2 ^ 30"
    unfolding abs_mult using a2 m by (intro mult_mono) simp_all
  then have "\<bar>fl (fl (2 * ?inv) * e) * mid\<bar> \<le> 2 ^ 31" by simp
  from fl_abs_le[OF this is_double_power]
  have a3: "\<bar>fl (fl (fl (2 * ?inv) * e) * mid)\<bar> \<le> 2 ^ 31" .
  have "0 \<le> e * e" using e(1) by simp
  moreover have "e * e \<le> 1 * 1" using e by (intro mult_mono) simp_all
  ultimately have b1: "0 \<le> fl (e * e)" "fl (e * e) \<le> 1"
    using fl_unit[of "e * e"] by simp_all
  have "\<bar>fl (e * e) * x\<bar> \<le> 1 * 2 ^ 31"
    unfolding abs_mult using b1 x by (intro mult_mono) simp_all
  then have "\<bar>fl (e * e) * x\<bar> \<le> 2 ^ 31" by simp
  from fl_abs_le[OF this is_double_power]
  have b2: "\<bar>fl (fl (e * e) * x)\<bar> \<le> 2 ^ 31" .
  from a3 b2 have "\<bar>fl (fl (fl (2 * ?inv) * e) * mid) + fl (fl (e * e) * x)\<bar> \<le> 2 ^ 32"
    by simp
  from fl_abs_le[OF this is_double_power] show ?thesis
    by (simp add: rel_curve_def Let_def)
qed

lemma rel_sample_inv:
  assumes "rel_sample en x y mx my steps i s = (evs, s')"
  shows "real_of_int (fst (delta_sum evs)) + acc_x s' = fl (acc_x s + fl (prev_bx s' - prev_bx s))"
    and "real_of_int (snd (delta_sum evs)) + acc_y s' = fl (acc_y s + fl (prev_by s' - prev_by s))"
    and "prev_bx s' = rel_curve mx (fl (real_of_int x)) (eased en i steps)"
    and "prev_by s' = rel_curve my (fl (real_of_int y)) (eased en i steps)"
    and "\<bar>acc_x s'\<bar> < 1" and "\<bar>acc_y s'\<bar> < 1"
    and "list_all is_delta evs"
proof -
  define bx where "bx = rel_curve mx (fl (real_of_int x)) (eased en i steps)"
  define by' where "by' = rel_curve my (fl (real_of_int y)) (eased en i steps)"
  define ax where "ax = fl (acc_x s + fl (bx - prev_bx s))"
  define ay where "ay = fl (acc_y s + fl (by' - prev_by s))"
  have dx: "is_double ax" and dy: "is_double ay" by (simp_all add: ax_def ay_def)
  note tx = trunc_exact[OF dx] and ty = trunc_exact[OF dy]
  have fx: "fl (ax - fl (real_of_int (py_int ax))) = ax - real_of_int (py_int ax)"
    using tx by (simp add: is_double_def)
  have fy: "fl (ay - fl (real_of_int (py_int ay))) = ay - real_of_int (py_int ay)"
    using ty by (simp add: is_double_def)
  have sm: "rel_sample en x y mx my steps i s =
     (if py_int ax \<noteq> 0 \<or> py_int ay \<noteq> 0
      then ([Delta (py_int ax) (py_int ay)],
            \<lparr>prev_bx = bx, prev_by = by',
             acc_x = ax - real_of_int (py_int ax), acc_y = ay - real_of_int (py_int ay)\<rparr>)
      else ([], \<lparr>prev_bx = bx, prev_by = by', acc_x = ax, acc_y = ay\<rparr>))"
    by (simp add: rel_sample_def Let_def bx_def by'_def ax_def ay_def fx[unfolded ax_def bx_def]
          fy[unfolded ay_def by'_def])
  show "real_of_int (fst (delta_sum evs)) + acc_x s' = fl (acc_x s + fl (prev_bx s' - prev_bx s))"
    and "real_of_int (snd (delta_sum evs)) + acc_y s' = fl (acc_y s + fl (prev_by s' - prev_by s))"
    and "prev_bx s' = rel_curve mx (fl (real_of_int x)) (eased en i steps)"
    and "prev_by s' = rel_curve my (fl (real_of_int y)) (eased en i steps)"
    and "\<bar>acc_x s'\<bar> < 1" and "\<bar>acc_y s'\<bar> < 1"
    and "list_all is_delta evs"
    using assms py_int_frac[of ax] py_int_frac[of ay]
    unfolding sm by (auto simp: ax_def ay_def bx_def by'_def split: if_splits)
qed

lemma rel_loop_shape:
  "rel_loop en x y mx my d steps is s = (tr, sf, r) \<Longrightarrow>
     length tr \<le> length is \<and> sf = vars_at tr s (length tr)
     \<and> (r = None \<longrightarrow> length tr = length is)
     \<and> (0 \<le> fl (d / real_of_int steps) \<longrightarrow> r = None)"
proof (induction "is" arbitrary: s tr sf r)
  case Nil
  then show ?case by (simp add: vars_at_def)
next
  case (Cons i "is")
  obtain evs s' where smp: "rel_sample en x y mx my steps i s = (evs, s')"
    by (cases "rel_sample en x y mx my steps i s")
  show ?case
  proof (cases "time_sleep (fl (d / real_of_int steps))")
    case (Some err)
    with Cons.prems smp show ?thesis
      by (auto simp: time_sleep_def vars_at_def split: if_splits)
  next
    case None
    obtain tr' sf' r' where rec: "rel_loop en x y mx my d steps is s' = (tr', sf', r')"
      by (cases "rel_loop en x y mx my d steps is s'") auto
    from Cons.prems smp None rec have eq: "tr = (evs, s') # tr'" "sf = sf'" "r = r'"
      by simp_all
    from Cons.IH[OF rec] eq show ?thesis
      by (cases tr') (auto simp: vars_at_def)
  qed
qed

lemma rel_loop_nth:
  "rel_loop en x y mx my d steps is s = (tr, sf, r) \<Longrightarrow> k < length tr \<Longrightarrow>
     tr ! k = rel_sample en x y mx my steps (is ! k) (vars_at tr s k)"
proof (induction "is" arbitrary: s tr sf r k)
  case Nil
  then show ?case by simp
next
  case (Cons i "is")
  obtain evs s' where smp: "rel_sample en x y mx my steps i s = (evs, s')"
    by (cases "rel_sample en x y mx my steps i s")
  obtain tr' where tr: "tr = (evs, s') # tr'"
    and rec: "tr' \<noteq> [] \<Longrightarrow> \<exists>sf' r'. rel_loop en x y mx my d steps is s' = (tr', sf', r')"
    using Cons.prems(1) smp
    by (cases "time_sleep (fl (d / real_of_int steps))";
        cases "rel_loop en x y mx my d steps is s'") auto
  show ?case
  proof (cases k)
    case 0
    with tr smp show ?thesis by (simp add: vars_at_def)
  next
    case (Suc j)
    with Cons.prems(2) tr have j: "j < length tr'" by simp
    then have "tr' \<noteq> []" by auto
    from rec[OF this] obtain sf' r' where
      rl: "rel_loop en x y mx my d steps is s' = (tr', sf', r')" by blast
    have "vars_at tr s (Suc j) = vars_at tr' s' j"
      using tr by (cases j) (simp_all add: vars_at_def)
    with Cons.IH[OF rl j] tr Suc show ?thesis by simp
  qed
qed

lemma injected_Suc:
  "k < length tr \<Longrightarrow>
     injected tr (Suc k) = (fst (injected tr k) + fst (delta_sum (fst (tr ! k))),
                            snd (injected tr k) + snd (delta_sum (fst (tr ! k))))"
  by (simp add: injected_def take_Suc_conv_app_nth delta_sum_append)

lemma injected_0 [simp]: "injected tr 0 = (0, 0)"
  by (simp add: injected_def)

lemma rel_loop_step:
  assumes "rel_loop en x y mx my d steps is s = (tr, sf, r)" and "k < length tr"
  shows "real_of_int (fst (injected tr (Suc k))) + acc_x (vars_at tr s (Suc k))
           = real_of_int (fst (injected tr k))
             + fl (acc_x (vars_at tr s k)
                   + fl (prev_bx (vars_at tr s (Suc k)) - prev_bx (vars_at tr s k)))"
    and "real_of_int (snd (injected tr (Suc k))) + acc_y (vars_at tr s (Suc k))
           = real_of_int (snd (injected tr k))
             + fl (acc_y (vars_at tr s k)
                   + fl (prev_by (vars_at tr s (Suc k)) - prev_by (vars_at tr s k)))"
    and "prev_bx (vars_at tr s (Suc k)) = rel_curve mx (fl (real_of_int x)) (eased en (is ! k) steps)"
    and "prev_by (vars_at tr s (Suc k)) = rel_curve my (fl (real_of_int y)) (eased en (is ! k) steps)"
    and "\<bar>acc_x (vars_at tr s (Suc k))\<bar> < 1" and "\<bar>acc_y (vars_at tr s (Suc k))\<bar> < 1"
    and "list_all is_delta (fst (tr ! k))"
proof -
  have v: "vars_at tr s (Suc k) = snd (tr ! k)" by (simp add: vars_at_def)
  have "rel_sample en x y mx my steps (is ! k) (vars_at tr s k) = (fst (tr ! k), snd (tr ! k))"
    using rel_loop_nth[OF assms] by simp
  note inv = rel_sample_inv[OF this]
  from inv(1) show "real_of_int (fst (injected tr (Suc k))) + acc_x (vars_at tr s (Suc k))
           = real_of_int (fst (injected tr k))
             + fl (acc_x (vars_at tr s k)
                   + fl (prev_bx (vars_at tr s (Suc k)) - prev_bx (vars_at tr s k)))"
    unfolding v injected_Suc[OF assms(2)] by simp
  from inv(2) show "real_of_int (snd (injected tr (Suc k))) + acc_y (vars_at tr s (Suc k))
           = real_of_int (snd (injected tr k))
             + fl (acc_y (vars_at tr s k)
                   + fl (prev_by (vars_at tr s (Suc k)) - prev_by (vars_at tr s k)))"
    unfolding v injected_Suc[OF assms(2)] by simp
  from inv(3-7) show
    "prev_bx (vars_at tr s (Suc k)) = rel_curve mx (fl (real_of_int x)) (eased en (is ! k) steps)"
    "prev_by (vars_at tr s (Suc k)) = rel_curve my (fl (real_of_int y)) (eased en (is ! k) steps)"
    "\<bar>acc_x (vars_at tr s (Suc k))\<bar> < 1" "\<bar>acc_y (vars_at tr s (Suc k))\<bar> < 1"
    "list_all is_delta (fst (tr ! k))"
    unfolding v by simp_all
qed

lemma step_count_ge: "15 \<le> step_count d"
  by (simp add: step_count_def)

lemma drift_step:
  assumes "\<bar>b\<bar> \<le> 2 ^ 32" and "\<bar>b'\<bar> \<le> 2 ^ 32" and "\<bar>a\<bar> < 1"
  shows "\<bar>fl (a + fl (b' - b)) - (a + (b' - b))\<bar> \<le> 1 / 2 ^ 18"
proof -
  have d: "\<bar>b' - b\<bar> \<le> 2 ^ 33" using assms(1,2) by simp
  have c1: "(2::real) ^ 33 * 2 powi (- 53) = 1 / 1048576" by (simp add: power_int_minus)
  have c2: "(2::real) ^ 34 * 2 powi (- 53) = 1 / 524288" by (simp add: power_int_minus)
  from fl_error[OF d] have e1: "\<bar>fl (b' - b) - (b' - b)\<bar> \<le> 1 / 1048576"
    unfolding c1 by simp
  from fl_abs_le[OF d is_double_power] have "\<bar>fl (b' - b)\<bar> \<le> 2 ^ 33" .
  with assms(3) have s: "\<bar>a + fl (b' - b)\<bar> \<le> 2 ^ 34" by simp
  from fl_error[OF s] have e2: "\<bar>fl (a + fl (b' - b)) - (a + fl (b' - b))\<bar> \<le> 1 / 524288"
    unfolding c2 by simp
  from e1 e2 have "\<bar>fl (a + fl (b' - b)) - (a + (b' - b))\<bar> \<le> 1 / 262144" by linarith
  then show ?thesis by simp
qed

lemma drift_bound:
  fixes S A B :: "nat \<Rightarrow> real"
  assumes step: "\<And>j. j < n \<Longrightarrow> S (Suc j) + A (Suc j) = S j + fl (A j + fl (B (Suc j) - B j))"
    and B: "\<And>j. j \<le> n \<Longrightarrow> \<bar>B j\<bar> \<le> 2 ^ 32"
    and A: "\<And>j. j \<le> n \<Longrightarrow> \<bar>A j\<bar> < 1"
    and init: "S 0 + A 0 - B 0 = 0"
  shows "k \<le> n \<Longrightarrow> \<bar>S k + A k - B k\<bar> \<le> real k / 2 ^ 18"
proof (induction k)
  case 0
  with init show ?case by simp
next
  case (Suc k)
  then have k: "k < n" "k \<le> n" "Suc k \<le> n" by simp_all
  have "S (Suc k) + A (Suc k) - B (Suc k)
        = (S k + A k - B k)
          + (fl (A k + fl (B (Suc k) - B k)) - (A k + (B (Suc k) - B k)))"
    using step[OF k(1)] by simp
  moreover note drift_step[OF B[OF k(2)] B[OF k(3)] A[OF k(2)]] Suc.IH[OF k(2)]
  ultimately have "\<bar>S (Suc k) + A (Suc k) - B (Suc k)\<bar> \<le> real k / 2 ^ 18 + 1 / 2 ^ 18"
    by linarith
  then show ?case by (simp add: add_divide_distrib)
qed

lemma rel_trace_complete:
  assumes "0 \<le> duration" and "rel_trace en x y duration = (tr, sf, r)"
  shows "r = None" and "length tr = nat (step_count duration)"
    and "sf = vars_at tr rel_init (length tr)"
proof -
  let ?n = "step_count duration"
  have rl: "rel_loop en x y (fl (real_of_int x / 2)) (fl (real_of_int y / 2)) duration ?n
              [1..?n] rel_init = (tr, sf, r)"
    using assms(2) by (simp add: rel_trace_def)
  have "0 \<le> duration / real_of_int ?n"
    using assms(1) step_count_ge[of duration] by simp
  then have pos: "0 \<le> fl (duration / real_of_int ?n)" by (rule fl_nonneg)
  from rel_loop_shape[OF rl] pos show "r = None" by simp
  with rel_loop_shape[OF rl] show "length tr = nat ?n" by simp
  from rel_loop_shape[OF rl] show "sf = vars_at tr rel_init (length tr)" by simp
qed

lemma rel_trace_length:
  "0 \<le> duration \<Longrightarrow> length (fst (rel_trace en x y duration)) = nat (step_count duration)"
  using rel_trace_complete(2)[of duration en x y] by (cases "rel_trace en x y duration") auto

lemma rel_trace_step:
  assumes rt: "rel_trace en x y duration = (tr, sf, r)" and k: "k < length tr"
  shows "real_of_int (fst (injected tr (Suc k))) + acc_x (vars_at tr rel_init (Suc k))
           = real_of_int (fst (injected tr k))
             + fl (acc_x (vars_at tr rel_init k)
                   + fl (prev_bx (vars_at tr rel_init (Suc k)) - prev_bx (vars_at tr rel_init k)))"
    and "real_of_int (snd (injected tr (Suc k))) + acc_y (vars_at tr rel_init (Suc k))
           = real_of_int (snd (injected tr k))
             + fl (acc_y (vars_at tr rel_init k)
                   + fl (prev_by (vars_at tr rel_init (Suc k)) - prev_by (vars_at tr rel_init k)))"
    and "prev_bx (vars_at tr rel_init (Suc k))
           = rel_curve (fl (real_of_int x / 2)) (fl (real_of_int x))
               (eased en (1 + int k) (step_count duration))"
    and "prev_by (vars_at tr rel_init (Suc k))
           = rel_curve (fl (real_of_int y / 2)) (fl (real_of_int y))
               (eased en (1 + int k) (step_count duration))"
    and "\<bar>acc_x (vars_at tr rel_init (Suc k))\<bar> < 1"
    and "\<bar>acc_y (vars_at tr rel_init (Suc k))\<bar> < 1"
    and "list_all is_delta (fst (tr ! k))"
proof -
  let ?n = "step_count duration"
  have rl: "rel_loop en x y (fl (real_of_int x / 2)) (fl (real_of_int y / 2)) duration ?n
              [1..?n] rel_init = (tr, sf, r)"
    using rt by (simp add: rel_trace_def)
  from rel_loop_shape[OF rl] k have "k < length [1..?n]" by simp
  then have idx: "[1..?n] ! k = 1 + int k" by (subst nth_upto) auto
  note st = rel_loop_step[OF rl k, unfolded idx]
  from st(1) show "real_of_int (fst (injected tr (Suc k))) + acc_x (vars_at tr rel_init (Suc k))
           = real_of_int (fst (injected tr k))
             + fl (acc_x (vars_at tr rel_init k)
                   + fl (prev_bx (vars_at tr rel_init (Suc k)) - prev_bx (vars_at tr rel_init k)))" .
  from st(2) show "real_of_int (snd (injected tr (Suc k))) + acc_y (vars_at tr rel_init (Suc k))
           = real_of_int (snd (injected tr k))
             + fl (acc_y (vars_at tr rel_init k)
                   + fl (prev_by (vars_at tr rel_init (Suc k)) - prev_by (vars_at tr rel_init k)))" .
  from st(3) show "prev_bx (vars_at tr rel_init (Suc k))
           = rel_curve (fl (real_of_int x / 2)) (fl (real_of_int x))
               (eased en (1 + int k) (step_count duration))" .
  from st(4) show "prev_by (vars_at tr rel_init (Suc k))
           = rel_curve (fl (real_of_int y / 2)) (fl (real_of_int y))
               (eased en (1 + int k) (step_count duration))" .
  from st(5) show "\<bar>acc_x (vars_at tr rel_init (Suc k))\<bar> < 1" .
  from st(6) show "\<bar>acc_y (vars_at tr rel_init (Suc k))\<bar> < 1" .
  from st(7) show "list_all is_delta (fst (tr ! k))" .
qed

lemma vars_at_init [simp]: "vars_at tr s 0 = s"
  by (simp add: vars_at_def)

lemma rel_trace_acc:
  assumes rt: "rel_trace en x y duration = (tr, sf, r)" and k: "k \<le> length tr"
  shows "\<bar>acc_x (vars_at tr rel_init k)\<bar> < 1" and "\<bar>acc_y (vars_at tr rel_init k)\<bar> < 1"
proof -
  have "\<bar>acc_x (vars_at tr rel_init k)\<bar> < 1 \<and> \<bar>acc_y (vars_at tr rel_init k)\<bar> < 1"
  proof (cases k)
    case 0
    then show ?thesis by (simp add: rel_init_def)
  next
    case (Suc j)
    with k have "j < length tr" by simp
    from rel_trace_step(5,6)[OF rt this] Suc show ?thesis by simp
  qed
  then show "\<bar>acc_x (vars_at tr rel_init k)\<bar> < 1" and "\<bar>acc_y (vars_at tr rel_init k)\<bar> < 1"
    by simp_all
qed

lemma rel_trace_curve_bound:
  assumes ok: "libm_ok en" and x: "\<bar>x\<bar> \<le> 2 ^ 31" and y: "\<bar>y\<bar> \<le> 2 ^ 31"
    and rt: "rel_trace en x y duration = (tr, sf, r)" and k: "k \<le> length tr"
  shows "\<bar>prev_bx (vars_at tr rel_init k)\<bar> \<le> 2 ^ 32"
    and "\<bar>prev_by (vars_at tr rel_init k)\<bar> \<le> 2 ^ 32"
proof -
  have half: "\<bar>real_of_int z / 2\<bar> \<le> 2 ^ 30" if "\<bar>z\<bar> \<le> 2 ^ 31" for z :: int
  proof -
    from that have "\<bar>real_of_int z\<bar> \<le> 2 ^ 31"
      by (metis (mono_tags) of_int_abs of_int_le_iff of_int_numeral of_int_power)
    then show ?thesis by simp
  qed
  have full: "\<bar>real_of_int z\<bar> \<le> 2 ^ 31" if "\<bar>z\<bar> \<le> 2 ^ 31" for z :: int
    using that by (metis (mono_tags) of_int_abs of_int_le_iff of_int_numeral of_int_power)
  have "\<bar>prev_bx (vars_at tr rel_init k)\<bar> \<le> 2 ^ 32 \<and> \<bar>prev_by (vars_at tr rel_init k)\<bar> \<le> 2 ^ 32"
  proof (cases k)
    case 0
    then show ?thesis by (simp add: rel_init_def)
  next
    case (Suc j)
    with k have j: "j < length tr" by simp
    note e = eased_range[OF ok, of "1 + int j" "step_count duration"]
    note bx = rel_curve_bound[OF e(1,2), of "real_of_int x / 2" "real_of_int x", OF half[OF x] full[OF x]]
    note by' = rel_curve_bound[OF e(1,2), of "real_of_int y / 2" "real_of_int y", OF half[OF y] full[OF y]]
    from rel_trace_step(3,4)[OF rt j] bx by' Suc show ?thesis
      by (simp add: fl_int32[OF x] fl_int32[OF y] fl_half_int32[OF x] fl_half_int32[OF y])
  qed
  then show "\<bar>prev_bx (vars_at tr rel_init k)\<bar> \<le> 2 ^ 32"
    and "\<bar>prev_by (vars_at tr rel_init k)\<bar> \<le> 2 ^ 32" by simp_all
qed

lemma rel_trace_drift:
  assumes ok: "libm_ok en" and x: "\<bar>x\<bar> \<le> 2 ^ 31" and y: "\<bar>y\<bar> \<le> 2 ^ 31"
    and rt: "rel_trace en x y duration = (tr, sf, r)" and k: "k \<le> length tr"
  shows "\<bar>real_of_int (fst (injected tr k)) + acc_x (vars_at tr rel_init k)
           - prev_bx (vars_at tr rel_init k)\<bar> \<le> real k / 2 ^ 18"
    and "\<bar>real_of_int (snd (injected tr k)) + acc_y (vars_at tr rel_init k)
           - prev_by (vars_at tr rel_init k)\<bar> \<le> real k / 2 ^ 18"
proof -
  show "\<bar>real_of_int (fst (injected tr k)) + acc_x (vars_at tr rel_init k)
           - prev_bx (vars_at tr rel_init k)\<bar> \<le> real k / 2 ^ 18"
  proof (rule drift_bound[where n = "length tr"
          and S = "\<lambda>j. real_of_int (fst (injected tr j))"
          and A = "\<lambda>j. acc_x (vars_at tr rel_init j)"
          and B = "\<lambda>j. prev_bx (vars_at tr rel_init j)", OF _ _ _ _ k])
    fix j assume "j < length tr"
    from rel_trace_step(1)[OF rt this]
    show "real_of_int (fst (injected tr (Suc j))) + acc_x (vars_at tr rel_init (Suc j))
           = real_of_int (fst (injected tr j))
             + fl (acc_x (vars_at tr rel_init j)
                   + fl (prev_bx (vars_at tr rel_init (Suc j)) - prev_bx (vars_at tr rel_init j)))" .
  next
    fix j assume "j \<le> length tr"
    from rel_trace_curve_bound(1)[OF ok x y rt this]
    show "\<bar>prev_bx (vars_at tr rel_init j)\<bar> \<le> 2 ^ 32" .
  next
    fix j assume "j \<le> length tr"
    from rel_trace_acc(1)[OF rt this] show "\<bar>acc_x (vars_at tr rel_init j)\<bar> < 1" .
  next
    show "real_of_int (fst (injected tr 0)) + acc_x (vars_at tr rel_init 0)
            - prev_bx (vars_at tr rel_init 0) = 0"
      by (simp add: rel_init_def)
  qed
  show "\<bar>real_of_int (snd (injected tr k)) + acc_y (vars_at tr rel_init k)
           - prev_by (vars_at tr rel_init k)\<bar> \<le> real k / 2 ^ 18"
  proof (rule drift_bound[where n = "length tr"
          and S = "\<lambda>j. real_of_int (snd (injected tr j))"
          and A = "\<lambda>j. acc_y (vars_at tr rel_init j)"
          and B = "\<lambda>j. prev_by (vars_at tr rel_init j)", OF _ _ _ _ k])
    fix j assume "j < length tr"
    from rel_trace_step(2)[OF rt this]
    show "real_of_int (snd (injected tr (Suc j))) + acc_y (vars_at tr rel_init (Suc j))
           = real_of_int (snd (injected tr j))
             + fl (acc_y (vars_at tr rel_init j)
                   + fl (prev_by (vars_at tr rel_init (Suc j)) - prev_by (vars_at tr rel_init j)))" .
  next
    fix j assume "j \<le> length tr"
    from rel_trace_curve_bound(2)[OF ok x y rt this]
    show "\<bar>prev_by (vars_at tr rel_init j)\<bar> \<le> 2 ^ 32" .
  next
    fix j assume "j \<le> length tr"
    from rel_trace_acc(2)[OF rt this] show "\<bar>acc_y (vars_at tr rel_init j)\<bar> < 1" .
  next
    show "real_of_int (snd (injected tr 0)) + acc_y (vars_at tr rel_init 0)
            - prev_by (vars_at tr rel_init 0) = 0"
      by (simp add: rel_init_def)
  qed
qed

lemma rel_trace_last_curve:
  assumes ok: "libm_ok en" and d: "0 \<le> duration"
    and rt: "rel_trace en x y duration = (tr, sf, r)"
  shows "prev_bx sf = fl (real_of_int x)" and "prev_by sf = fl (real_of_int y)"
proof -
  let ?n = "step_count duration"
  note c = rel_trace_complete[OF d rt]
  have n: "15 \<le> ?n" by (rule step_count_ge)
  define k where "k = length tr - 1"
  have k: "k < length tr" "Suc k = length tr" "1 + int k = ?n"
    using c(2) n by (auto simp: k_def)
  from n have "0 < ?n" by simp
  note one = eased_last[OF ok this]
  from rel_trace_step(3,4)[OF rt k(1)]
  show "prev_bx sf = fl (real_of_int x)" and "prev_by sf = fl (real_of_int y)"
    unfolding k(2,3) c(3)[symmetric] one by (simp_all add: rel_curve_one)
qed

lemma step_count_le: "duration \<le> 512 \<Longrightarrow> step_count duration \<le> 61440"
proof -
  assume "duration \<le> 512"
  then have le: "duration * 120 \<le> real_of_int 61440" by simp
  have "is_double (real_of_int 61440)" by (rule is_double_of_int) simp
  from fl_le[OF le this] have "fl (duration * 120) \<le> real_of_int 61440" .
  then have "py_int (fl (duration * 120)) \<le> 61440"
    unfolding py_int_def by (auto simp: floor_le_iff ceiling_le_iff)
  then show ?thesis by (simp add: step_count_def)
qed

lemma rel_trace_final:
  assumes ok: "libm_ok en" and d: "0 \<le> duration" "duration \<le> 512"
    and x: "\<bar>x\<bar> \<le> 2 ^ 31" and y: "\<bar>y\<bar> \<le> 2 ^ 31"
    and rt: "rel_trace en x y duration = (tr, sf, r)"
  shows "py_round (acc_x sf) = x - fst (injected tr (length tr))"
    and "py_round (acc_y sf) = y - snd (injected tr (length tr))"
proof -
  note c = rel_trace_complete[OF d(1) rt]
  note l = rel_trace_last_curve[OF ok d(1) rt]
  from c(2) step_count_le[OF d(2)] step_count_ge[of duration]
  have small: "real (length tr) \<le> 61440" by simp
  note dr = rel_trace_drift[OF ok x y rt order_refl, folded c(3), unfolded l
              fl_int32[OF x] fl_int32[OF y]]
  from dr(1) have "\<bar>real_of_int (fst (injected tr (length tr))) + acc_x sf - real_of_int x\<bar>
                   \<le> real (length tr) / 262144" by simp
  with small
  have "\<bar>acc_x sf - real_of_int (x - fst (injected tr (length tr)))\<bar> < 1 / 2"
    unfolding of_int_diff by linarith
  then show "py_round (acc_x sf) = x - fst (injected tr (length tr))" by (rule py_round_near)
  from dr(2) have "\<bar>real_of_int (snd (injected tr (length tr))) + acc_y sf - real_of_int y\<bar>
                   \<le> real (length tr) / 262144" by simp
  with small
  have "\<bar>acc_y sf - real_of_int (y - snd (injected tr (length tr)))\<bar> < 1 / 2"
    unfolding of_int_diff by linarith
  then show "py_round (acc_y sf) = y - snd (injected tr (length tr))" by (rule py_round_near)
qed

lemma rel_flush_sum: "delta_sum (rel_flush s) = (py_round (acc_x s), py_round (acc_y s))"
  by (auto simp: rel_flush_def Let_def)

lemma rel_flush_is_delta: "list_all is_delta (rel_flush s)"
  by (simp add: rel_flush_def Let_def)

lemma injected_all: "injected tr (length tr) = delta_sum (concat (map fst tr))"
  by (simp add: injected_def)

lemma rel_trace_deltas:
  assumes rt: "rel_trace en x y duration = (tr, sf, r)"
  shows "list_all is_delta (concat (map fst tr))"
proof -
  have "is_delta e" if "e \<in> set (concat (map fst tr))" for e
  proof -
    from that obtain p where "p \<in> set tr" "e \<in> set (fst p)" by auto
    then obtain k where k: "k < length tr" "e \<in> set (fst (tr ! k))"
      by (metis in_set_conv_nth)
    from rel_trace_step(7)[OF rt k(1)] k(2) show ?thesis by (simp add: list_all_iff)
  qed
  then show ?thesis by (simp add: list_all_iff)
qed

lemma math_sqrt_value:
  assumes "0 \<le> n" and "n < 2 ^ 1024 - 2 ^ 970"
  shows "math_sqrt n = Inr (fl (sqrt (fl (real_of_int n))))"
proof -
  from assms(1) have "0 \<le> fl (real_of_int n)" by (intro fl_nonneg) simp
  with assms show ?thesis by (simp add: math_sqrt_def float_of_int_def)
qed

lemma sum_squares_int32:
  fixes x y :: int
  assumes "\<bar>x\<bar> \<le> 2 ^ 31" and "\<bar>y\<bar> \<le> 2 ^ 31"
  shows "0 \<le> x * x + y * y" and "x * x + y * y < 2 ^ 1024 - 2 ^ 970"
proof -
  show "0 \<le> x * x + y * y" by (rule sum_squares_ge_zero)
  have "x * x = \<bar>x\<bar> * \<bar>x\<bar>" "y * y = \<bar>y\<bar> * \<bar>y\<bar>" by simp_all
  moreover have "\<bar>x\<bar> * \<bar>x\<bar> \<le> 2 ^ 31 * 2 ^ 31" using assms(1) by (intro mult_mono) simp_all
  moreover have "\<bar>y\<bar> * \<bar>y\<bar> \<le> 2 ^ 31 * 2 ^ 31" using assms(2) by (intro mult_mono) simp_all
  ultimately have "x * x + y * y \<le> 2 ^ 63" by simp
  also have "(2::int) ^ 63 < 2 ^ 1024 - 2 ^ 970" by simp
  finally show "x * x + y * y < 2 ^ 1024 - 2 ^ 970" .
qed

lemma smooth_move_relative:
  assumes "0 \<le> x * x + y * y" and "x * x + y * y < 2 ^ 1024 - 2 ^ 970"
  shows "smooth_move en x y duration True =
     (if fl (sqrt (fl (real_of_int (x * x + y * y)))) < 2 then ([Delta x y], None)
      else case rel_trace en x y duration of
             (tr, s, Some err) \<Rightarrow> (concat (map fst tr), Some err)
           | (tr, s, None) \<Rightarrow> (concat (map fst tr) @ rel_flush s, None))"
  by (cases "cursor en") (simp add: smooth_move_def Let_def math_sqrt_value[OF assms])

lemma libm_ok_origin: "libm_ok origin_env"
proof -
  have "is_double (libm_cos t) \<and> - 1 \<le> libm_cos t \<and> libm_cos t \<le> 1" for t
  proof -
    have "\<bar>cos t\<bar> \<le> 1" by simp
    from fl_abs_le[OF this] have "\<bar>fl (cos t)\<bar> \<le> 1" by simp
    then show ?thesis by (auto simp: libm_cos_def)
  qed
  then show ?thesis by (simp add: libm_ok_def origin_env_def libm_cos_def)
qed

lemma fl_big_offset: "fl (real_of_int (2 ^ 200 + 1)) = 2 ^ 200"
proof -
  have "fl (real_of_int (2 ^ 200 + 1)) = real_of_int (2 ^ 52) * 2 powi (200 - 52)"
    by (rule fl_value) simp_all
  then show ?thesis by simp
qed

lemma fl_big_half: "fl (real_of_int (2 ^ 200 + 1) / 2) = 2 ^ 199"
proof -
  have "fl (real_of_int (2 ^ 200 + 1) / 2) = real_of_int (2 ^ 52) * 2 powi (199 - 52)"
    by (rule fl_value) simp_all
  then show ?thesis by simp
qed

lemma eased_gap:
  assumes "libm_ok en"
  shows "eased en i n = 0 \<or> 2 powi (- 54) \<le> eased en i n"
proof -
  let ?c = "cos_val en (fl (fl (real_of_int i / real_of_int n) * math_pi))"
  from assms have c: "is_double ?c" "?c \<le> 1" by (simp_all add: libm_ok_def)
  from one_minus_gap[OF c] show ?thesis
  proof
    assume "fl (1 - ?c) = 0"
    then show ?thesis by (simp add: eased_def Let_def)
  next
    assume "2 powi (- 53) \<le> fl (1 - ?c)"
    then have "2 powi (- 53) / 2 \<le> fl (1 - ?c) / 2" by simp
    moreover have "(2::real) powi (- 53) / 2 = 2 powi (- 54)" by (simp add: power_int_minus)
    ultimately have "2 powi (- 54) \<le> fl (1 - ?c) / 2" by simp
    from fl_ge[OF this is_double_pow2] show ?thesis by (simp add: eased_def Let_def)
  qed
qed

lemma scaled_even:
  assumes "p = 0 \<or> 2 powi (- 108) \<le> p" and "2 ^ 199 \<le> m"
  shows "even_real (fl (p * m))"
proof -
  from assms(1) show ?thesis
  proof
    assume "p = 0"
    then show ?thesis by simp
  next
    assume p: "2 powi (- 108) \<le> p"
    have "(2::real) ^ 53 \<le> 2 powi (- 108) * 2 ^ 199" by (simp add: power_int_minus)
    also have "\<dots> \<le> p * m" using p assms(2) by (intro mult_mono) simp_all
    finally have "2 ^ 53 \<le> \<bar>p * m\<bar>" by simp
    then show ?thesis by (rule fl_large_even)
  qed
qed

lemma rel_curve_even:
  assumes e: "0 \<le> e" "e \<le> 1" "is_double e" and gap: "e = 0 \<or> 2 powi (- 54) \<le> e"
  shows "even_real (rel_curve (2 ^ 199) (2 ^ 200) e)"
proof -
  let ?inv = "fl (1 - e)"
  let ?p = "fl (fl (2 * ?inv) * e)"
  let ?q = "fl (e * e)"
  have p: "?p = 0 \<or> 2 powi (- 108) \<le> ?p"
  proof (cases "?inv = 0 \<or> e = 0")
    case True
    then show ?thesis by auto
  next
    case False
    with gap one_minus_gap[OF e(3,2)]
    have lo: "2 powi (- 53) \<le> ?inv" "2 powi (- 54) \<le> e" by auto
    have "(2::real) powi (- 52) = 2 * 2 powi (- 53)" by (simp add: power_int_minus)
    also have "\<dots> \<le> 2 * ?inv" using lo(1) by simp
    finally have "2 powi (- 52) \<le> 2 * ?inv" .
    from fl_ge[OF this is_double_pow2] have a: "2 powi (- 52) \<le> fl (2 * ?inv)" by simp
    have "(2::real) powi (- 108) \<le> 2 powi (- 52) * 2 powi (- 54)" by (simp add: power_int_minus)
    also have "\<dots> \<le> fl (2 * ?inv) * e" using a lo(2) by (intro mult_mono) simp_all
    finally have "2 powi (- 108) \<le> fl (2 * ?inv) * e" .
    from fl_ge[OF this is_double_pow2] show ?thesis by simp
  qed
  have q: "?q = 0 \<or> 2 powi (- 108) \<le> ?q"
  proof (cases "e = 0")
    case True
    then show ?thesis by simp
  next
    case False
    with gap have lo: "2 powi (- 54) \<le> e" by simp
    have "(2::real) powi (- 108) = 2 powi (- 54) * 2 powi (- 54)" by (simp add: power_int_minus)
    also have "\<dots> \<le> e * e" using lo by (intro mult_mono) simp_all
    finally have "2 powi (- 108) \<le> e * e" .
    from fl_ge[OF this is_double_pow2] show ?thesis by simp
  qed
  have a: "even_real (fl (?p * 2 ^ 199))" by (rule scaled_even[OF p]) simp
  have b: "even_real (fl (?q * 2 ^ 200))" by (rule scaled_even[OF q]) simp
  from fl_even[OF even_real_add[OF a b]] show ?thesis
    unfolding rel_curve_def Let_def .
qed

lemma parity_bound:
  fixes s :: "nat \<Rightarrow> int" and A B :: "nat \<Rightarrow> real"
  assumes step: "\<And>j. j < n \<Longrightarrow>
        real_of_int (s (Suc j)) + A (Suc j) = real_of_int (s j) + fl (A j + fl (B (Suc j) - B j))"
    and B: "\<And>j. j \<le> n \<Longrightarrow> even_real (B j)"
    and A: "\<And>j. j \<le> n \<Longrightarrow> \<bar>A j\<bar> < 1"
    and init: "s 0 = 0" "A 0 = 0"
  shows "k \<le> n \<Longrightarrow> A k = 0 \<and> even (s k)"
proof (induction k)
  case 0
  with init show ?case by simp
next
  case (Suc k)
  then have k: "k < n" "k \<le> n" "Suc k \<le> n" by simp_all
  from Suc.IH[OF k(2)] have ih: "A k = 0" "even (s k)" by simp_all
  have "even_real (fl (B (Suc k) - B k))"
    by (intro fl_even even_real_diff B k)
  then obtain m where m: "fl (B (Suc k) - B k) = real_of_int (2 * m)"
    unfolding even_real_def by blast
  have "fl (A k + fl (B (Suc k) - B k)) = fl (B (Suc k) - B k)" using ih(1) by simp
  with step[OF k(1)] m
  have "real_of_int (s (Suc k)) + A (Suc k) = real_of_int (s k) + real_of_int (2 * m)"
    by (simp only:)
  then have eq: "A (Suc k) = real_of_int (s k + 2 * m - s (Suc k))" by simp
  with A[OF k(3)] have "\<bar>real_of_int (s k + 2 * m - s (Suc k))\<bar> < 1" by simp
  then have z: "s k + 2 * m - s (Suc k) = 0" by linarith
  with eq have "A (Suc k) = 0" by simp
  moreover from z have "s (Suc k) = s k + 2 * m" by simp
  with ih(2) have "even (s (Suc k))" by simp
  ultimately show ?case by simp
qed

lemma big_offset_even:
  assumes ok: "libm_ok en"
    and rt: "rel_trace en (2 ^ 200 + 1) 0 duration = (tr, sf, r)" and k: "k \<le> length tr"
  shows "acc_x (vars_at tr rel_init k) = 0 \<and> even (fst (injected tr k))"
proof (rule parity_bound[where n = "length tr"
          and s = "\<lambda>j. fst (injected tr j)"
          and A = "\<lambda>j. acc_x (vars_at tr rel_init j)"
          and B = "\<lambda>j. prev_bx (vars_at tr rel_init j)", OF _ _ _ _ _ k])
  fix j assume "j < length tr"
  from rel_trace_step(1)[OF rt this]
  show "real_of_int (fst (injected tr (Suc j))) + acc_x (vars_at tr rel_init (Suc j))
         = real_of_int (fst (injected tr j))
           + fl (acc_x (vars_at tr rel_init j)
                 + fl (prev_bx (vars_at tr rel_init (Suc j)) - prev_bx (vars_at tr rel_init j)))" .
next
  fix j assume j: "j \<le> length tr"
  show "even_real (prev_bx (vars_at tr rel_init j))"
  proof (cases j)
    case 0
    then show ?thesis by (simp add: rel_init_def)
  next
    case (Suc i)
    with j have i: "i < length tr" by simp
    note e = eased_range[OF ok, of "1 + int i" "step_count duration"]
    note g = eased_gap[OF ok, of "1 + int i" "step_count duration"]
    have "prev_bx (vars_at tr rel_init (Suc i))
            = rel_curve (2 ^ 199) (2 ^ 200) (eased en (1 + int i) (step_count duration))"
      using rel_trace_step(3)[OF rt i] unfolding fl_big_offset fl_big_half .
    with rel_curve_even[OF e g] show ?thesis unfolding Suc by (simp only:)
  qed
next
  fix j assume "j \<le> length tr"
  from rel_trace_acc(1)[OF rt this] show "\<bar>acc_x (vars_at tr rel_init j)\<bar> < 1" .
next
  show "fst (injected tr 0) = 0" by simp
  show "acc_x (vars_at tr rel_init 0) = 0" by (simp add: rel_init_def)
qed

lemma far_enough:
  assumes "4 \<le> n"
  shows "\<not> fl (sqrt (fl (real_of_int n))) < 2"
proof -
  from assms have "(4::real) \<le> real_of_int n" by simp
  moreover have "is_double 4" using is_double_power[of 2] by simp
  ultimately have "4 \<le> fl (real_of_int n)" by (rule fl_ge)
  then have "2 \<le> sqrt (fl (real_of_int n))" by (intro real_le_rsqrt) simp
  from fl_ge[OF this] show ?thesis by simp
qed

lemma step_count_64: "step_count (1 / 64) = 15"
proof -
  have "fl (real_of_int 15 * 2 powi (- 3)) = real_of_int 15 * 2 powi (- 3)"
    by (rule fl_dyadic) simp_all
  then have "fl (1 / 64 * 120) = 15 / 8" by (simp add: power_int_minus)
  then show ?thesis by (simp add: step_count_def py_int_def)
qed

lemma big_offset_run:
  assumes ok: "libm_ok en" and d: "0 \<le> duration"
  shows "snd (smooth_move en (2 ^ 200 + 1) 0 duration True) = None"
    and "even (fst (delta_sum (fst (smooth_move en (2 ^ 200 + 1) 0 duration True))))"
proof -
  obtain tr sf r where rt: "rel_trace en (2 ^ 200 + 1) 0 duration = (tr, sf, r)"
    by (cases "rel_trace en (2 ^ 200 + 1) 0 duration") auto
  note c = rel_trace_complete[OF d rt]
  from big_offset_even[OF ok rt order_refl] c(3)
  have z: "acc_x sf = 0" and ev: "even (fst (injected tr (length tr)))" by simp_all
  have sm: "smooth_move en (2 ^ 200 + 1) 0 duration True = (concat (map fst tr) @ rel_flush sf, None)"
    using rt c(1) far_enough[of "(2 ^ 200 + 1) * (2 ^ 200 + 1) + 0 * 0"]
    by (subst smooth_move_relative) simp_all
  show "snd (smooth_move en (2 ^ 200 + 1) 0 duration True) = None" unfolding sm by simp
  show "even (fst (delta_sum (fst (smooth_move en (2 ^ 200 + 1) 0 duration True))))"
    using ev z unfolding sm by (simp add: delta_sum_append rel_flush_sum injected_all)
qed





lemma ideal_curve_one: "ideal_curve x 1 = x"
  by (simp add: ideal_curve_def ideal_eased_def Let_def)

lemma step_count_quarter: "step_count (1 / 4) = 30"
proof -
  have "fl (real_of_int 30) = real_of_int 30" by (rule fl_of_int) simp
  then have "fl (1 / 4 * 120) = 30" by simp
  then show ?thesis by (simp add: step_count_def py_int_def)
qed

text \<open>
  Claim C2 as stated fails in its second reading. For the offset \<open>(2^200 + 1, 0)\<close> and
  a duration of 1/64 second the loop runs 15 samples; at the last one the ideal curve
  is at the offset itself, an odd number, and the deltas injected so far add up to an
  even number on the first axis: they differ by one unit or more.
\<close>

theorem rel_accumulator_counterexample:
  "length (fst (rel_trace origin_env (2 ^ 200 + 1) 0 (1 / 64))) = 15
   \<and> 1 \<le> \<bar>real_of_int (fst (injected (fst (rel_trace origin_env (2 ^ 200 + 1) 0 (1 / 64))) 15))
            - ideal_curve (real_of_int (2 ^ 200 + 1)) (15 / 15)\<bar>"
proof -
  obtain tr sf r where rt: "rel_trace origin_env (2 ^ 200 + 1) 0 (1 / 64) = (tr, sf, r)"
    by (cases "rel_trace origin_env (2 ^ 200 + 1) 0 (1 / 64)") auto
  have d: "(0::real) \<le> 1 / 64" by simp
  from rel_trace_complete(2)[OF d rt] have len: "length tr = 15"
    by (simp add: step_count_64)
  then have "15 \<le> length tr" by simp
  from big_offset_even[OF libm_ok_origin rt this] have ev: "even (fst (injected tr 15))" by simp
  have far: "1 \<le> \<bar>real_of_int (n - (2 ^ 200 + 1))\<bar>" if "even n" for n :: int
  proof -
    from that have "n \<noteq> 2 ^ 200 + 1" by auto
    then have "1 \<le> \<bar>n - (2 ^ 200 + 1)\<bar>" by linarith
    then show ?thesis by linarith
  qed
  have c: "ideal_curve (real_of_int (2 ^ 200 + 1)) (15 / 15) = real_of_int (2 ^ 200 + 1)"
    using ideal_curve_one[of "real_of_int (2 ^ 200 + 1)"] by simp
  show ?thesis
    unfolding rt fst_conv c of_int_diff[symmetric] using len far[OF ev] by (intro conjI)
qed


text \<open>
  Claim C2, amended. In the relative loop, right after the injection step of every
  sample the accumulator is below one in absolute value on each axis. For an offset
  within 31 bits on each axis, with a \<open>math.cos\<close> that returns doubles between -1 and
  1, the deltas injected up to and including sample number \<open>k + 1\<close> differ from the
  curve position that the code has computed at that sample by less than
  \<open>1 + (k + 1) / 2^18\<close> on each axis.
\<close>

theorem rel_accumulator_bounded:
  "k < length (fst (rel_trace en x y duration)) \<Longrightarrow>
     \<bar>acc_x (snd (fst (rel_trace en x y duration) ! k))\<bar> < 1
     \<and> \<bar>acc_y (snd (fst (rel_trace en x y duration) ! k))\<bar> < 1
     \<and> (libm_ok en \<and> \<bar>x\<bar> \<le> 2 ^ 31 \<and> \<bar>y\<bar> \<le> 2 ^ 31 \<longrightarrow>
          \<bar>real_of_int (fst (injected (fst (rel_trace en x y duration)) (Suc k)))
             - rel_curve (fl (real_of_int x / 2)) (fl (real_of_int x))
                 (eased en (int k + 1) (step_count duration))\<bar> < 1 + real (Suc k) / 2 ^ 18
          \<and> \<bar>real_of_int (snd (injected (fst (rel_trace en x y duration)) (Suc k)))
             - rel_curve (fl (real_of_int y / 2)) (fl (real_of_int y))
                 (eased en (int k + 1) (step_count duration))\<bar> < 1 + real (Suc k) / 2 ^ 18)"
proof -
  assume k: "k < length (fst (rel_trace en x y duration))"
  obtain tr sf r where rt: "rel_trace en x y duration = (tr, sf, r)"
    by (cases "rel_trace en x y duration") auto
  from k rt have k': "k < length tr" and k'': "Suc k \<le> length tr" by simp_all
  have v: "vars_at tr rel_init (Suc k) = snd (tr ! k)" by (simp add: vars_at_def)
  note a = rel_trace_acc[OF rt k'', unfolded v]
  note b = rel_trace_step(3,4)[OF rt k', unfolded v]
  have i: "int k + 1 = 1 + int k" by simp
  have "\<bar>real_of_int (fst (injected tr (Suc k))) - prev_bx (snd (tr ! k))\<bar> < 1 + real (Suc k) / 2 ^ 18
        \<and> \<bar>real_of_int (snd (injected tr (Suc k))) - prev_by (snd (tr ! k))\<bar> < 1 + real (Suc k) / 2 ^ 18"
    if ok: "libm_ok en" and x: "\<bar>x\<bar> \<le> 2 ^ 31" and y: "\<bar>y\<bar> \<le> 2 ^ 31"
  proof -
    note dr = rel_trace_drift[OF ok x y rt k'', unfolded v]
    from dr(1) a(1) have "\<bar>real_of_int (fst (injected tr (Suc k))) - prev_bx (snd (tr ! k))\<bar>
                          < 1 + real (Suc k) / 2 ^ 18" by linarith
    moreover from dr(2) a(2)
    have "\<bar>real_of_int (snd (injected tr (Suc k))) - prev_by (snd (tr ! k))\<bar>
          < 1 + real (Suc k) / 2 ^ 18" by linarith
    ultimately show ?thesis by simp
  qed
  with a show ?thesis unfolding rt fst_conv i b[symmetric] by blast
qed

theorem rel_accumulator_bounded_witness:
  "9 < length (fst (rel_trace origin_env 100 0 (1 / 4)))
   \<and> libm_ok origin_env \<and> \<bar>100::int\<bar> \<le> 2 ^ 31 \<and> \<bar>0::int\<bar> \<le> 2 ^ 31
   \<and> \<bar>acc_x (snd (fst (rel_trace origin_env 100 0 (1 / 4)) ! 9))\<bar> < 1
   \<and> \<bar>acc_y (snd (fst (rel_trace origin_env 100 0 (1 / 4)) ! 9))\<bar> < 1
   \<and> \<bar>real_of_int (fst (injected (fst (rel_trace origin_env 100 0 (1 / 4))) (Suc 9)))
        - rel_curve (fl (real_of_int 100 / 2)) (fl (real_of_int 100))
            (eased origin_env (int 9 + 1) (step_count (1 / 4)))\<bar> < 1 + real (Suc 9) / 2 ^ 18
   \<and> \<bar>real_of_int (snd (injected (fst (rel_trace origin_env 100 0 (1 / 4))) (Suc 9)))
        - rel_curve (fl (real_of_int 0 / 2)) (fl (real_of_int 0))
            (eased origin_env (int 9 + 1) (step_count (1 / 4)))\<bar> < 1 + real (Suc 9) / 2 ^ 18"
proof -
  have d: "(0::real) \<le> 1 / 4" by simp
  have len: "9 < length (fst (rel_trace origin_env 100 0 (1 / 4)))"
    using rel_trace_length[OF d, of origin_env 100 0] by (simp add: step_count_quarter)
  have bx: "\<bar>100::int\<bar> \<le> 2 ^ 31" and "by": "\<bar>0::int\<bar> \<le> 2 ^ 31" by simp_all
  from len rel_accumulator_bounded[OF len] libm_ok_origin bx "by" show ?thesis by blast
qed

section \<open>Absolute motion\<close>

lemma abs_loop_complete:
  "0 \<le> fl (d / real_of_int steps) \<Longrightarrow>
     snd (abs_loop en sx sy tx ty mx my d steps is) = None
     \<and> length (fst (abs_loop en sx sy tx ty mx my d steps is)) = length is"
  by (induction "is") (auto simp: time_sleep_def Let_def split_beta)

lemma far_enough_sqrt:
  assumes "2 \<le> sqrt (real_of_int n)"
  shows "\<not> fl (sqrt (fl (real_of_int n))) < 2" and "0 \<le> n"
proof -
  have "0 \<le> real_of_int n"
  proof (rule ccontr)
    assume "\<not> 0 \<le> real_of_int n"
    then have "sqrt (real_of_int n) < 0" by simp
    with assms show False by simp
  qed
  then show "0 \<le> n" by simp
  from assms have "2 ^ 2 \<le> sqrt (real_of_int n) ^ 2" by (intro power_mono) simp_all
  with \<open>0 \<le> real_of_int n\<close> have "4 \<le> real_of_int n" by simp
  then have "4 \<le> n" by linarith
  then show "\<not> fl (sqrt (fl (real_of_int n))) < 2" by (rule far_enough)
qed

lemma smooth_move_absolute_long:
  assumes "0 \<le> duration"
    and "2 \<le> sqrt (real_of_int ((x - fst (cursor en)) * (x - fst (cursor en))
                 + (y - snd (cursor en)) * (y - snd (cursor en))))"
    and "(x - fst (cursor en)) * (x - fst (cursor en))
           + (y - snd (cursor en)) * (y - snd (cursor en)) < 2 ^ 1024 - 2 ^ 970"
  shows "\<exists>samples. smooth_move en x y duration False = (samples @ [Move x y], None)
           \<and> length samples = nat (step_count duration)"
proof -
  let ?n = "step_count duration"
  have "0 \<le> duration / real_of_int ?n"
    using assms(1) step_count_ge[of duration] by simp
  then have pos: "0 \<le> fl (duration / real_of_int ?n)" by (rule fl_nonneg)
  note far = far_enough_sqrt[OF assms(2)]
  note sq = math_sqrt_value[OF far(2) assms(3)]
  obtain cx cy where c: "cursor en = (cx, cy)" by (cases "cursor en")
  show ?thesis
    using far(1) sq step_count_ge[of duration] unfolding c fst_conv snd_conv
    by (auto simp: smooth_move_def Let_def split_beta c abs_loop_complete[OF pos]
             split: prod.splits option.splits)
qed





section \<open>Short path\<close>

lemma near_enough:
  assumes "sqrt (real_of_int n) < 2" and "0 \<le> n"
  shows "\<exists>r. math_sqrt n = Inr r \<and> r < 2"
proof -
  from assms(2) have nn: "0 \<le> real_of_int n" by simp
  have "real_of_int n < 4"
  proof (rule ccontr)
    assume "\<not> real_of_int n < 4"
    then have "2 ^ 2 \<le> real_of_int n" by simp
    then have "2 \<le> sqrt (real_of_int n)" by (intro real_le_rsqrt)
    with assms(1) show False by simp
  qed
  then have n3: "n \<le> 3" by linarith
  with assms(2) have "\<bar>n\<bar> \<le> 2 ^ 53" by simp
  then have f: "fl (real_of_int n) = real_of_int n" by (rule fl_of_int)
  from n3 have "real_of_int n \<le> (7 / 4)\<^sup>2" by (simp add: power2_eq_square)
  then have le: "sqrt (real_of_int n) \<le> 7 / 4" by (intro real_le_lsqrt) simp_all
  have "fl (real_of_int 7 * 2 powi (- 2)) = real_of_int 7 * 2 powi (- 2)"
    by (rule fl_dyadic) simp_all
  then have "is_double (7 / 4)" by (simp add: is_double_def power_int_minus)
  from fl_le[OF le this] have "fl (sqrt (real_of_int n)) < 2" by simp
  moreover from n3 assms(2) have "n < 2 ^ 1024 - 2 ^ 970" by simp
  ultimately show ?thesis using math_sqrt_value[OF assms(2)] f by simp
qed

text \<open>
  Claim C6. When the distance from the start to the target is strictly below 2,
  \<open>smooth_move\<close> runs no loop: it injects exactly one event, the requested delta in
  relative mode and the requested target in absolute mode, and returns normally.
\<close>

theorem smooth_move_short_path:
  "(sqrt (real_of_int (x * x + y * y)) < 2 \<longrightarrow>
      smooth_move en x y duration True = ([Delta x y], None))
   \<and> (sqrt (real_of_int ((x - fst (cursor en)) * (x - fst (cursor en))
                 + (y - snd (cursor en)) * (y - snd (cursor en)))) < 2 \<longrightarrow>
      smooth_move en x y duration False = ([Move x y], None))"
proof (intro conjI impI)
  assume "sqrt (real_of_int (x * x + y * y)) < 2"
  from near_enough[OF this sum_squares_ge_zero] obtain r where
    "math_sqrt (x * x + y * y) = Inr r" "r < 2" by blast
  then show "smooth_move en x y duration True = ([Delta x y], None)"
    by (cases "cursor en") (simp add: smooth_move_def Let_def)
next
  assume "sqrt (real_of_int ((x - fst (cursor en)) * (x - fst (cursor en))
                 + (y - snd (cursor en)) * (y - snd (cursor en)))) < 2"
  from near_enough[OF this sum_squares_ge_zero] obtain r where
    "math_sqrt ((x - fst (cursor en)) * (x - fst (cursor en))
                 + (y - snd (cursor en)) * (y - snd (cursor en))) = Inr r" "r < 2" by blast
  then show "smooth_move en x y duration False = ([Move x y], None)"
    by (cases "cursor en") (simp add: smooth_move_def Let_def)
qed

theorem smooth_move_short_path_witness:
  "sqrt (real_of_int (1 * 1 + (-1) * (-1))) < 2
   \<and> smooth_move origin_env 1 (-1) (1 / 4) True = ([Delta 1 (-1)], None)
   \<and> sqrt (real_of_int ((1 - fst (cursor origin_env)) * (1 - fst (cursor origin_env))
                 + (-1 - snd (cursor origin_env)) * (-1 - snd (cursor origin_env)))) < 2
   \<and> smooth_move origin_env 1 (-1) (1 / 4) False = ([Move 1 (-1)], None)"
proof -
  have a: "sqrt (real_of_int (1 * 1 + (-1) * (-1))) < 2"
    by (simp add: real_less_lsqrt)
  have b: "sqrt (real_of_int ((1 - fst (cursor origin_env)) * (1 - fst (cursor origin_env))
                 + (-1 - snd (cursor origin_env)) * (-1 - snd (cursor origin_env)))) < 2"
    by (simp add: origin_env_def real_less_lsqrt)
  from a b smooth_move_short_path[of 1 "-1" origin_env "1 / 4"] show ?thesis by blast
qed


section \<open>Easing\<close>

lemma ideal_eased_mono:
  "0 \<le> s \<Longrightarrow> s \<le> t \<Longrightarrow> t \<le> 1 \<Longrightarrow> ideal_eased s \<le> ideal_eased t"
proof -
  assume "0 \<le> s" "s \<le> t" "t \<le> 1"
  then have "0 \<le> s * pi" "s * pi \<le> t * pi" "t * pi \<le> pi"
    by (simp_all add: mult_right_mono mult_left_le_one_le)
  then have "cos (t * pi) \<le> cos (s * pi)" by (rule cos_monotone_0_pi_le)
  then show ?thesis by (simp add: ideal_eased_def)
qed

text \<open>
  The easing formula over the real numbers. For every \<open>steps\<close> of at least 1 the eased
  parameters at \<open>i / steps\<close>, \<open>i\<close> from 1 to \<open>steps\<close>, never decrease, the last of them
  is 1, and the eased value at one half is one half. This is a fact about the real
  cosine. What the code computes depends on the doubles that \<open>math.cos\<close> returns: the
  last eased value is 1 when \<open>math.cos(math.pi)\<close> is -1 (lemma \<open>eased_last\<close>), and the
  other two parts are not determined by the source.
\<close>

lemma eased_sequence_real:
  "1 \<le> steps \<Longrightarrow>
     sorted (map (\<lambda>i. ideal_eased (real_of_int i / real_of_int steps)) [1..steps])
     \<and> last (map (\<lambda>i. ideal_eased (real_of_int i / real_of_int steps)) [1..steps]) = 1
     \<and> ideal_eased (1 / 2) = 1 / 2"
proof -
  assume st: "1 \<le> steps"
  let ?f = "\<lambda>i. ideal_eased (real_of_int i / real_of_int steps)"
  have "sorted_wrt (\<lambda>i j. ?f i \<le> ?f j) [1..steps]"
  proof (rule sorted_wrt_mono_rel[of _ "(\<le>)"])
    show "sorted_wrt (\<le>) [1..steps]" using sorted_upto by simp
  next
    fix i j assume "i \<in> set [1..steps]" "j \<in> set [1..steps]" "i \<le> j"
    with st show "?f i \<le> ?f j"
      by (intro ideal_eased_mono) (simp_all add: divide_right_mono)
  qed
  then have "sorted (map ?f [1..steps])" by (simp add: sorted_map)
  moreover have "[1..steps] \<noteq> []" using st by simp
  then have "last (map ?f [1..steps]) = ?f (last [1..steps])" by (simp add: last_map)
  moreover have "last [1..steps] = steps"
    using st by (metis upto_rec2 last_snoc)
  moreover have "?f steps = 1" using st by (simp add: ideal_eased_def)
  moreover have "ideal_eased (1 / 2) = 1 / 2" by (simp add: ideal_eased_def)
  ultimately show ?thesis by simp
qed

lemma eased_sequence_real_at_15:
  "(1::int) \<le> 15
   \<and> sorted (map (\<lambda>i. ideal_eased (real_of_int i / real_of_int 15)) [1..15])
   \<and> last (map (\<lambda>i. ideal_eased (real_of_int i / real_of_int 15)) [1..15]) = 1
   \<and> ideal_eased (1 / 2) = 1 / 2"
  using eased_sequence_real[of 15] by simp

section \<open>Step count\<close>

lemma fl_255_16: "fl (255 / 16) = 255 / 16"
proof -
  have "fl (real_of_int 255 * 2 powi (- 4)) = real_of_int 255 * 2 powi (- 4)"
    by (rule fl_dyadic) simp_all
  then show ?thesis by (simp add: power_int_minus)
qed

text \<open>
  The product \<open>duration * 120\<close> is a float product, rounded before it is truncated: at
  the double nearest to 1.025 it falls below 123, and \<open>steps\<close> is 122.
\<close>

lemma fl_41_40: "fl (41 / 40) = 4616189618054758 / 4503599627370496"
proof -
  have "fl (41 / 40) = real_of_int 4616189618054758 * 2 powi (0 - 52)"
    by (rule fl_value) simp_all
  then show ?thesis by (simp add: power_int_minus)
qed

lemma fl_123_below:
  "fl (4616189618054758 / 4503599627370496 * 120) = 8655355533852671 / 70368744177664"
proof -
  have "fl (4616189618054758 / 4503599627370496 * 120)
        = real_of_int 8655355533852671 * 2 powi (6 - 52)"
    by (rule fl_value) simp_all
  then show ?thesis by (simp add: power_int_minus)
qed

lemma step_count_rounded_product: "step_count (fl (41 / 40)) = 122"
  unfolding step_count_def fl_41_40 fl_123_below by (simp add: py_int_def)





section \<open>Interruptible sleep\<close>

lemma spin_wait_sound:
  assumes "spin_wait clk end_t k = Some k'"
  shows "k < k' \<and> end_t \<le> clk (k' - 1)"
proof (rule spin_wait.raw_induct
    [where P = "\<lambda>clk end_t k k'. k < k' \<and> end_t \<le> clk (k' - 1)", OF _ assms])
  fix spin :: "(nat \<Rightarrow> real) \<Rightarrow> real \<Rightarrow> nat \<Rightarrow> nat option" and clk end_t k k'
  assume IH: "\<And>clk end_t k k'. spin clk end_t k = Some k' \<Longrightarrow> k < k' \<and> end_t \<le> clk (k' - 1)"
    and eq: "(if clk k < end_t then spin clk end_t (k + 1) else Some (k + 1)) = Some k'"
  show "k < k' \<and> end_t \<le> clk (k' - 1)"
  proof (cases "clk k < end_t")
    case True
    with eq have "spin clk end_t (k + 1) = Some k'" by simp
    from IH[OF this] show ?thesis by simp
  next
    case False
    with eq show ?thesis by auto
  qed
qed

lemma wait_loop_sound:
  assumes "wait_loop en end_t k c sl = Some r"
  shows "c < checks r
     \<and> (\<forall>j. c \<le> j \<and> j < checks r - 1 \<longrightarrow> status en j)
     \<and> result r = status en (checks r - 1)
     \<and> length (sleeps r) + c + 1 = length sl + checks r
     \<and> (\<not> result r \<longrightarrow> reads r + c + 1 = k + checks r)
     \<and> (result r \<longrightarrow> k < reads r \<and> end_t \<le> clock en (reads r - 1))"
proof (rule wait_loop.raw_induct
    [where P = "\<lambda>en end_t k c sl r. c < checks r
     \<and> (\<forall>j. c \<le> j \<and> j < checks r - 1 \<longrightarrow> status en j)
     \<and> result r = status en (checks r - 1)
     \<and> length (sleeps r) + c + 1 = length sl + checks r
     \<and> (\<not> result r \<longrightarrow> reads r + c + 1 = k + checks r)
     \<and> (result r \<longrightarrow> k < reads r \<and> end_t \<le> clock en (reads r - 1))", OF _ assms])
  fix loop :: "timer_env \<Rightarrow> real \<Rightarrow> nat \<Rightarrow> nat \<Rightarrow> real list \<Rightarrow> outcome option"
    and en end_t k c sl r
  assume IH: "\<And>en end_t k c sl r. loop en end_t k c sl = Some r \<Longrightarrow>
     c < checks r
     \<and> (\<forall>j. c \<le> j \<and> j < checks r - 1 \<longrightarrow> status en j)
     \<and> result r = status en (checks r - 1)
     \<and> length (sleeps r) + c + 1 = length sl + checks r
     \<and> (\<not> result r \<longrightarrow> reads r + c + 1 = k + checks r)
     \<and> (result r \<longrightarrow> k < reads r \<and> end_t \<le> clock en (reads r - 1))"
  and eq: "(if \<not> status en c
      then Some \<lparr>result = False, reads = k, checks = c + 1, sleeps = sl\<rparr>
      else if end_t - clock en k \<le> 0
      then Some \<lparr>result = True, reads = k + 1, checks = c + 1, sleeps = sl\<rparr>
      else if end_t - clock en k \<le> 1 / 1000
      then Option.bind (spin_wait (clock en) end_t (k + 1))
             (\<lambda>k'. Some \<lparr>result = True, reads = k', checks = c + 1, sleeps = sl\<rparr>)
      else loop en end_t (k + 1) (c + 1)
             (sl @ [min (1 / 20) (end_t - clock en k - 1 / 1000)])) = Some r"
  let ?goal = "c < checks r
     \<and> (\<forall>j. c \<le> j \<and> j < checks r - 1 \<longrightarrow> status en j)
     \<and> result r = status en (checks r - 1)
     \<and> length (sleeps r) + c + 1 = length sl + checks r
     \<and> (\<not> result r \<longrightarrow> reads r + c + 1 = k + checks r)
     \<and> (result r \<longrightarrow> k < reads r \<and> end_t \<le> clock en (reads r - 1))"
  consider (stop) "\<not> status en c"
    | (reached) "status en c" "end_t - clock en k \<le> 0"
    | (spin) "status en c" "\<not> end_t - clock en k \<le> 0" "end_t - clock en k \<le> 1 / 1000"
    | (sleep) "status en c" "\<not> end_t - clock en k \<le> 0" "\<not> end_t - clock en k \<le> 1 / 1000"
    by blast
  then show ?goal
  proof cases
    case stop
    with eq have "r = \<lparr>result = False, reads = k, checks = c + 1, sleeps = sl\<rparr>" by simp
    with stop show ?thesis by auto
  next
    case reached
    with eq have "r = \<lparr>result = True, reads = k + 1, checks = c + 1, sleeps = sl\<rparr>" by simp
    with reached show ?thesis by auto
  next
    case spin
    with eq obtain k' where sp: "spin_wait (clock en) end_t (k + 1) = Some k'"
      and r: "r = \<lparr>result = True, reads = k', checks = c + 1, sleeps = sl\<rparr>"
      by (auto simp: bind_eq_Some_conv)
    from spin_wait_sound[OF sp] r spin(1) show ?thesis by auto
  next
    case sleep
    with eq have
      "loop en end_t (k + 1) (c + 1) (sl @ [min (1 / 20) (end_t - clock en k - 1 / 1000)]) = Some r"
      by simp
    from IH[OF this] have
      1: "c + 1 < checks r"
      and 2: "\<forall>j. c + 1 \<le> j \<and> j < checks r - 1 \<longrightarrow> status en j"
      and 3: "result r = status en (checks r - 1)"
      and 4: "length (sleeps r) + (c + 1) + 1 = length sl + 1 + checks r"
      and 5: "\<not> result r \<longrightarrow> reads r + (c + 1) + 1 = k + 1 + checks r"
      and 6: "result r \<longrightarrow> k + 1 < reads r \<and> end_t \<le> clock en (reads r - 1)"
      by simp_all
    have "\<forall>j. c \<le> j \<and> j < checks r - 1 \<longrightarrow> status en j"
    proof (intro allI impI)
      fix j assume j: "c \<le> j \<and> j < checks r - 1"
      show "status en j"
      proof (cases "j = c")
        case True with sleep(1) show ?thesis by simp
      next
        case False with j 2 show ?thesis by simp
      qed
    qed
    with 1 3 4 5 6 show ?thesis by auto
  qed
qed

lemma sleep_ticking:
  "sleep_interruptible ticking_env (1 / 20)
     = Some \<lparr>result = True, reads = 3, checks = 2, sleeps = [19 / 1000]\<rparr>"
  unfolding sleep_interruptible_def
  apply (subst wait_loop.simps)
  apply (simp add: ticking_env_def)
  apply (subst wait_loop.simps)
  apply simp
  done

lemma sleep_stopped:
  "sleep_interruptible stopped_env d
     = Some \<lparr>result = False, reads = 1, checks = 1, sleeps = []\<rparr>"
  unfolding sleep_interruptible_def
  by (subst wait_loop.simps) (simp add: stopped_env_def)




lemma wait_loop_stop:
  "\<not> status en c \<Longrightarrow>
     wait_loop en end_t k c sl
       = Some \<lparr>result = False, reads = k, checks = c + 1, sleeps = sl\<rparr>"
  by (subst wait_loop.simps) simp

lemma wait_loop_deadline:
  "status en c \<Longrightarrow> end_t - clock en k \<le> 0 \<Longrightarrow>
     wait_loop en end_t k c sl
       = Some \<lparr>result = True, reads = k + 1, checks = c + 1, sleeps = sl\<rparr>"
  by (subst wait_loop.simps) simp

lemma wait_loop_sleep:
  "status en c \<Longrightarrow> 1 / 1000 < end_t - clock en k \<Longrightarrow>
     wait_loop en end_t k c sl
       = wait_loop en end_t (k + 1) (c + 1)
           (sl @ [min (1 / 20) (end_t - clock en k - 1 / 1000)])"
  by (subst wait_loop.simps) simp

lemma spin_wait_total:
  "(\<forall>i<m. clk (k + i) < end_t) \<Longrightarrow> \<not> clk (k + m) < end_t \<Longrightarrow>
     spin_wait clk end_t k = Some (k + m + 1)"
proof (induction m arbitrary: k)
  case 0
  then show ?case by (subst spin_wait.simps) simp
next
  case (Suc m)
  from Suc.prems(1) have here: "clk k < end_t" by (metis add.right_neutral zero_less_Suc)
  have "\<forall>i<m. clk (Suc k + i) < end_t"
  proof (intro allI impI)
    fix i assume "i < m"
    then have "Suc i < Suc m" by simp
    with Suc.prems(1) have "clk (k + Suc i) < end_t" by blast
    then show "clk (Suc k + i) < end_t" by simp
  qed
  moreover from Suc.prems(2) have "\<not> clk (Suc k + m) < end_t" by simp
  ultimately have "spin_wait clk end_t (Suc k) = Some (Suc k + m + 1)" by (rule Suc.IH)
  with here show ?case by (subst spin_wait.simps) simp
qed

lemma wait_loop_spin:
  "status en c \<Longrightarrow> \<not> end_t - clock en k \<le> 0 \<Longrightarrow> end_t - clock en k \<le> 1 / 1000 \<Longrightarrow>
   (\<forall>i<m. clock en (k + 1 + i) < end_t) \<Longrightarrow> \<not> clock en (k + 1 + m) < end_t \<Longrightarrow>
     wait_loop en end_t k c sl
       = Some \<lparr>result = True, reads = k + m + 2, checks = c + 1, sleeps = sl\<rparr>"
  using spin_wait_total[of m "clock en" "k + 1" end_t]
  by (subst wait_loop.simps) simp

lemma wait_loop_passes:
  "(\<forall>j<n. status en (c + j) \<and> 1 / 1000 < end_t - clock en (k + j)) \<Longrightarrow>
     wait_loop en end_t k c sl
       = wait_loop en end_t (k + n) (c + n)
           (sl @ map (\<lambda>j. min (1 / 20) (end_t - clock en (k + j) - 1 / 1000)) [0..<n])"
proof (induction n)
  case 0
  show ?case by simp
next
  case (Suc n)
  from Suc.prems have pre: "\<forall>j<n. status en (c + j) \<and> 1 / 1000 < end_t - clock en (k + j)"
    and last: "status en (c + n)" "1 / 1000 < end_t - clock en (k + n)"
    by simp_all
  from Suc.IH[OF pre] wait_loop_sleep[OF last]
  show ?case by simp
qed

lemma sleep_interruptible_passes:
  "slept_passes en duration n \<Longrightarrow>
     sleep_interruptible en duration
       = wait_loop en (clock en 0 + duration) (Suc n) n (pass_sleeps en duration n)"
proof -
  assume "slept_passes en duration n"
  then have "\<forall>j<n. status en (0 + j) \<and> 1 / 1000 < clock en 0 + duration - clock en (1 + j)"
    by (simp add: slept_passes_def)
  from wait_loop_passes[OF this, of "[]"] show ?thesis
    by (simp add: sleep_interruptible_def pass_sleeps_def)
qed




text \<open>
  Claim C8 as stated fails: with a duration of zero and a predicate that is False,
  \<open>sleep_interruptible\<close> returns False, not True.
\<close>

theorem sleep_interruptible_nonpositive_counterexample:
  "(0::real) \<le> 0
   \<and> sleep_interruptible stopped_env 0
       = Some \<lparr>result = False, reads = 1, checks = 1, sleeps = []\<rparr>"
  using sleep_stopped[of 0] by simp


text \<open>
  Claim C8, amended. For every duration of zero or less, with a clock that does not
  run backward between its first two reads, \<open>sleep_interruptible\<close> returns at once
  without sleeping, after a single check of the predicate: True when that check
  returned True, False when it returned False.
\<close>

theorem sleep_interruptible_nonpositive:
  "duration \<le> 0 \<Longrightarrow> clock en 0 \<le> clock en 1 \<Longrightarrow>
     sleep_interruptible en duration
       = Some \<lparr>result = status en 0, reads = (if status en 0 then 2 else 1),
               checks = 1, sleeps = []\<rparr>"
  unfolding sleep_interruptible_def by (subst wait_loop.simps) simp

theorem sleep_interruptible_nonpositive_witness:
  "(0::real) \<le> 0 \<and> clock ticking_env 0 \<le> clock ticking_env 1
   \<and> sleep_interruptible ticking_env 0
       = Some \<lparr>result = True, reads = 2, checks = 1, sleeps = []\<rparr>"
proof -
  have c: "clock ticking_env 0 \<le> clock ticking_env 1" by (simp add: ticking_env_def)
  have s: "status ticking_env 0" by (simp add: ticking_env_def)
  from sleep_interruptible_nonpositive[of 0 ticking_env] c s show ?thesis by simp
qed

section \<open>The held-input state\<close>

lemma pressed_unreleased_snoc:
  "pressed_unreleased P R (cs @ [c])
     = (P c \<or> (pressed_unreleased P R cs \<and> \<not> R c))"
  by (induction cs) auto

lemma release_key_code:
  "release ke (KeyCode n) st
     = (if n \<in> set (held_keys st)
        then Inr ([KeyEvent n (scan_code ke n) ((if is_extended_key ke n then 1 else 0) OR 2)],
                  st\<lparr>held_keys := removeAll n (held_keys st)\<rparr>)
        else Inr ([], st))"
  by (simp add: release_def get_key_code_def Let_def)

lemma release_keys_result:
  "\<exists>evs st'. release_keys ke ks st = Inr (evs, st')
       \<and> set (held_keys st') = set (held_keys st) - set ks
       \<and> left_click_held st' = left_click_held st
       \<and> right_click_held st' = right_click_held st"
proof (induction ks arbitrary: st)
  case Nil
  show ?case by simp
next
  case (Cons n ks)
  obtain evs1 st1 where r1: "release ke (KeyCode n) st = Inr (evs1, st1)"
    and h1: "set (held_keys st1) = set (held_keys st) - {n}"
    and l1: "left_click_held st1 = left_click_held st"
    and r1': "right_click_held st1 = right_click_held st"
    by (cases "n \<in> set (held_keys st)") (auto simp: release_key_code)
  from Cons.IH[of st1] obtain evs2 st2 where
    r2: "release_keys ke ks st1 = Inr (evs2, st2)"
    and h2: "set (held_keys st2) = set (held_keys st1) - set ks"
    and l2: "left_click_held st2 = left_click_held st1"
    and r2': "right_click_held st2 = right_click_held st1"
    by blast
  from r1 r2 have "release_keys ke (n # ks) st = Inr (evs1 @ evs2, st2)" by simp
  moreover from h1 h2 have "set (held_keys st2) = set (held_keys st) - set (n # ks)" by auto
  ultimately show ?case using l1 l2 r1' r2' by auto
qed

lemma release_all_result:
  "\<exists>evs st'. release_all ke st = Inr (evs, st') \<and> held_keys st' = []
       \<and> \<not> left_click_held st' \<and> \<not> right_click_held st'"
proof -
  from release_keys_result[of ke "held_keys st" st] obtain evs st1 where
    r: "release_keys ke (held_keys st) st = Inr (evs, st1)"
    and h: "set (held_keys st1) = set (held_keys st) - set (held_keys st)" by blast
  from h have "held_keys st1 = []" by simp
  with r show ?thesis
    by (simp add: release_all_def release_left_click_def release_right_click_def
        Let_def split_beta)
qed

lemma next_state_keys:
  "n \<in> set (held_keys (next_state ke st c))
     \<longleftrightarrow> holds_key ke n c \<or> (n \<in> set (held_keys st) \<and> \<not> frees_key ke n c)"
proof (cases c)
  case (Press k hold)
  then show ?thesis
    by (cases "get_key_code (key_map ke) k") (auto simp: next_state_def press_def Let_def)
next
  case (Release k)
  then show ?thesis
    by (cases "get_key_code (key_map ke) k") (auto simp: next_state_def release_def Let_def)
next
  case ReleaseAll
  from release_all_result[of ke st] obtain evs st' where
    "release_all ke st = Inr (evs, st')" "held_keys st' = []" by blast
  with ReleaseAll show ?thesis by (simp add: next_state_def)
next
  case (LeftClick hold)
  then show ?thesis by (simp add: next_state_def left_click_def)
next
  case ReleaseLeftClick
  then show ?thesis by (simp add: next_state_def release_left_click_def)
next
  case (RightClick hold)
  then show ?thesis by (simp add: next_state_def right_click_def)
next
  case ReleaseRightClick
  then show ?thesis by (simp add: next_state_def release_right_click_def)
qed

lemma next_state_left:
  "left_click_held (next_state ke st c)
     \<longleftrightarrow> c = LeftClick True
         \<or> (left_click_held st \<and> \<not> (c = ReleaseLeftClick \<or> c = ReleaseAll))"
proof (cases c)
  case (Press k hold)
  then show ?thesis
    by (cases "get_key_code (key_map ke) k") (auto simp: next_state_def press_def Let_def)
next
  case (Release k)
  then show ?thesis
    by (cases "get_key_code (key_map ke) k") (auto simp: next_state_def release_def Let_def)
next
  case ReleaseAll
  from release_all_result[of ke st] obtain evs st' where
    "release_all ke st = Inr (evs, st')" "\<not> left_click_held st'" by blast
  with ReleaseAll show ?thesis by (simp add: next_state_def)
next
  case (LeftClick hold)
  then show ?thesis by (auto simp: next_state_def left_click_def)
next
  case ReleaseLeftClick
  then show ?thesis by (simp add: next_state_def release_left_click_def)
next
  case (RightClick hold)
  then show ?thesis by (simp add: next_state_def right_click_def)
next
  case ReleaseRightClick
  then show ?thesis by (simp add: next_state_def release_right_click_def)
qed

lemma next_state_right:
  "right_click_held (next_state ke st c)
     \<longleftrightarrow> c = RightClick True
         \<or> (right_click_held st \<and> \<not> (c = ReleaseRightClick \<or> c = ReleaseAll))"
proof (cases c)
  case (Press k hold)
  then show ?thesis
    by (cases "get_key_code (key_map ke) k") (auto simp: next_state_def press_def Let_def)
next
  case (Release k)
  then show ?thesis
    by (cases "get_key_code (key_map ke) k") (auto simp: next_state_def release_def Let_def)
next
  case ReleaseAll
  from release_all_result[of ke st] obtain evs st' where
    "release_all ke st = Inr (evs, st')" "\<not> right_click_held st'" by blast
  with ReleaseAll show ?thesis by (simp add: next_state_def)
next
  case (LeftClick hold)
  then show ?thesis by (simp add: next_state_def left_click_def)
next
  case ReleaseLeftClick
  then show ?thesis by (simp add: next_state_def release_left_click_def)
next
  case (RightClick hold)
  then show ?thesis by (auto simp: next_state_def right_click_def)
next
  case ReleaseRightClick
  then show ?thesis by (simp add: next_state_def release_right_click_def)
qed

lemma state_after_tracks:
  "(n \<in> set (held_keys (state_after ke cs)) \<longleftrightarrow> spec_key_held ke cs n)
   \<and> (left_click_held (state_after ke cs) \<longleftrightarrow> spec_left_held cs)
   \<and> (right_click_held (state_after ke cs) \<longleftrightarrow> spec_right_held cs)"
proof (induction cs rule: rev_induct)
  case Nil
  show ?case
    by (simp add: state_after_def initial_state_def spec_key_held_def spec_left_held_def
        spec_right_held_def)
next
  case (snoc c cs)
  have step: "state_after ke (cs @ [c]) = next_state ke (state_after ke cs) c"
    by (simp add: state_after_def)
  from snoc show ?case
    unfolding step next_state_keys next_state_left next_state_right
      spec_key_held_def spec_left_held_def spec_right_held_def pressed_unreleased_snoc
    by simp
qed

lemma char_of_97: "char_of (97::nat) = CHR ''a''"
  by code_simp

lemma lower_char_A: "map lower_char ''A'' = ''a''"
  by (simp add: lower_char_def char_of_97)

lemma lower_char_a: "map lower_char ''a'' = ''a''"
  by (simp add: lower_char_def)

lemma plain_keys_codes:
  "get_key_code (key_map plain_keys) (KeyName ''A'') = Inr 65"
  "get_key_code (key_map plain_keys) (KeyName ''a'') = Inr 65"
  "get_key_code km (KeyCode n) = Inr n"
  by (simp_all add: get_key_code_def plain_keys_def lower_char_A lower_char_a
      del: list.map)

lemma calls_reach_holding_a:
  "state_after plain_keys
     [Press (KeyName ''A'') True, LeftClick True, Press (KeyCode 66) True, Release (KeyCode 66)]
   = holding_a"
  by (simp add: state_after_def next_state_def initial_state_def holding_a_def
      press_def release_def left_click_def plain_keys_codes Let_def)


text \<open>
  Claim C9. After any sequence of calls, starting from the module's initial globals,
  \<open>_held_keys\<close> holds exactly the key codes pressed with \<open>hold=True\<close> and not released
  since, and each click flag is True exactly when its button was pressed with
  \<open>hold=True\<close> and not released since. From any state, \<open>press(key, hold=True)\<close> on a key
  already held injects no event and changes nothing, \<open>release(key)\<close> on a key not held
  injects no event and changes nothing, and \<open>release_all()\<close> returns with no key held
  and both click flags False.
\<close>

theorem held_state_tracking:
  "(n \<in> set (held_keys (state_after ke cs)) \<longleftrightarrow> spec_key_held ke cs n)
   \<and> (left_click_held (state_after ke cs) \<longleftrightarrow> spec_left_held cs)
   \<and> (right_click_held (state_after ke cs) \<longleftrightarrow> spec_right_held cs)
   \<and> (get_key_code (key_map ke) k = Inr n \<and> n \<in> set (held_keys st) \<longrightarrow>
        press ke k True st = Inr ([], st))
   \<and> (get_key_code (key_map ke) k = Inr n \<and> n \<notin> set (held_keys st) \<longrightarrow>
        release ke k st = Inr ([], st))
   \<and> (\<exists>evs st'. release_all ke st = Inr (evs, st') \<and> held_keys st' = []
          \<and> \<not> left_click_held st' \<and> \<not> right_click_held st')"
proof -
  have a: "get_key_code (key_map ke) k = Inr n \<and> n \<in> set (held_keys st) \<longrightarrow>
        press ke k True st = Inr ([], st)"
    by (simp add: press_def Let_def)
  have b: "get_key_code (key_map ke) k = Inr n \<and> n \<notin> set (held_keys st) \<longrightarrow>
        release ke k st = Inr ([], st)"
    by (simp add: release_def Let_def)
  from state_after_tracks[of n ke cs] a b release_all_result[of ke st]
  show ?thesis by blast
qed


theorem held_state_tracking_witness:
  "state_after plain_keys
     [Press (KeyName ''A'') True, LeftClick True, Press (KeyCode 66) True, Release (KeyCode 66)]
     = holding_a
   \<and> spec_key_held plain_keys
       [Press (KeyName ''A'') True, LeftClick True, Press (KeyCode 66) True, Release (KeyCode 66)] 65
   \<and> \<not> spec_key_held plain_keys
       [Press (KeyName ''A'') True, LeftClick True, Press (KeyCode 66) True, Release (KeyCode 66)] 66
   \<and> spec_left_held
       [Press (KeyName ''A'') True, LeftClick True, Press (KeyCode 66) True, Release (KeyCode 66)]
   \<and> \<not> spec_right_held
       [Press (KeyName ''A'') True, LeftClick True, Press (KeyCode 66) True, Release (KeyCode 66)]
   \<and> get_key_code (key_map plain_keys) (KeyName ''a'') = Inr 65
   \<and> 65 \<in> set (held_keys holding_a)
   \<and> press plain_keys (KeyName ''a'') True holding_a = Inr ([], holding_a)
   \<and> get_key_code (key_map plain_keys) (KeyCode 66) = Inr 66
   \<and> 66 \<notin> set (held_keys holding_a)
   \<and> release plain_keys (KeyCode 66) holding_a = Inr ([], holding_a)
   \<and> (\<exists>evs st'. release_all plain_keys holding_a = Inr (evs, st') \<and> held_keys st' = []
          \<and> \<not> left_click_held st' \<and> \<not> right_click_held st')"
proof -
  let ?cs = "[Press (KeyName ''A'') True, LeftClick True, Press (KeyCode 66) True,
              Release (KeyCode 66)]"
  note run = calls_reach_holding_a
  have ka: "get_key_code (key_map plain_keys) (KeyName ''a'') = Inr 65"
    by (rule plain_keys_codes)
  have kb: "get_key_code (key_map plain_keys) (KeyCode 66) = Inr 66"
    by (rule plain_keys_codes)
  have ha: "65 \<in> set (held_keys holding_a)" and hb: "66 \<notin> set (held_keys holding_a)"
    and hl: "left_click_held holding_a" and hr: "\<not> right_click_held holding_a"
    by (simp_all add: holding_a_def)
  note t65 = held_state_tracking[of 65 plain_keys ?cs "KeyName ''a''" holding_a]
  note t66 = held_state_tracking[of 66 plain_keys ?cs "KeyCode 66" holding_a]
  from t65 ha hl hr have s65: "spec_key_held plain_keys ?cs 65"
    and sl: "spec_left_held ?cs" and sr: "\<not> spec_right_held ?cs"
    unfolding run by blast+
  from t66 hb have s66: "\<not> spec_key_held plain_keys ?cs 66"
    unfolding run by blast
  from t65 ka ha have p: "press plain_keys (KeyName ''a'') True holding_a = Inr ([], holding_a)"
    by blast
  from t66 kb hb have r: "release plain_keys (KeyCode 66) holding_a = Inr ([], holding_a)"
    by blast
  from t65 have ra: "\<exists>evs st'. release_all plain_keys holding_a = Inr (evs, st')
          \<and> held_keys st' = [] \<and> \<not> left_click_held st' \<and> \<not> right_click_held st'"
    by blast
  from run s65 s66 sl sr ka ha p kb hb r ra show ?thesis by blast
qed

end
